theory Spec2Isabelle
  imports Complex_Main "HOL-Library.Sublist"
begin

section \<open>filtering.py: cells, rules, the token bucket and the filter\<close>

text \<open>
  In the definitions of this and the next sections Python floats are exact real
  numbers: timestamps, rates, capacities and token counts have type \<^typ>\<open>real\<close>, and
  \<open>+\<close>, \<open>-\<close>, \<open>*\<close>, \<open>/\<close> are the exact operations. Where the rounding of double
  arithmetic decides a property, the definitions with the suffix \<open>_fl\<close> further down
  are used: the same code with every arithmetic result rounded.
\<close>

type_synonym flow_key = "int \<times> int"

record ATMCell =
  vpi :: int
  vci :: int
  payload :: string
  is_malicious :: bool
  timestamp :: real

text \<open>\<open>ATMCell.header\<close>: the pair \<open>(vpi, vci)\<close>.\<close>

definition header :: "ATMCell \<Rightarrow> flow_key" where
  "header cell = (vpi cell, vci cell)"

record HeaderRule =
  deny_list :: "flow_key set"

text \<open>\<open>HeaderRule.__init__\<close>: \<open>set(deny_list) if deny_list else set()\<close>.\<close>

definition HeaderRule_init :: "flow_key list option \<Rightarrow> HeaderRule" where
  "HeaderRule_init dl =
     (case dl of
        None \<Rightarrow> \<lparr>deny_list = {}\<rparr>
      | Some l \<Rightarrow> (if l \<noteq> [] then \<lparr>deny_list = set l\<rparr> else \<lparr>deny_list = {}\<rparr>))"

text \<open>\<open>HeaderRule.check\<close>: true when the cell is to be blocked.\<close>

definition HeaderRule_check :: "HeaderRule \<Rightarrow> ATMCell \<Rightarrow> bool" where
  "HeaderRule_check h cell = (header cell \<in> deny_list h)"

record PayloadRule =
  signatures :: "string list"

text \<open>\<open>PayloadRule.__init__\<close>: \<open>list(signatures) if signatures else []\<close>.\<close>

definition PayloadRule_init :: "string list option \<Rightarrow> PayloadRule" where
  "PayloadRule_init sigs =
     (case sigs of
        None \<Rightarrow> \<lparr>signatures = []\<rparr>
      | Some l \<Rightarrow> (if l \<noteq> [] then \<lparr>signatures = l\<rparr> else \<lparr>signatures = []\<rparr>))"

text \<open>
  The loop of \<open>PayloadRule.check\<close>: the first signature found in the payload returns
  \<open>True\<close>. Python's \<open>sig in cell.payload\<close> on strings is the contiguous-substring test,
  \<^const>\<open>sublist\<close>.
\<close>

fun check_signatures :: "string list \<Rightarrow> ATMCell \<Rightarrow> bool" where
  "check_signatures [] cell = False"
| "check_signatures (sig # sigs) cell =
     (if sublist sig (payload cell) then True else check_signatures sigs cell)"

definition PayloadRule_check :: "PayloadRule \<Rightarrow> ATMCell \<Rightarrow> bool" where
  "PayloadRule_check p cell = check_signatures (signatures p) cell"

record TokenBucket =
  rate :: real
  capacity :: real
  tokens :: real
  last_time :: "real option"

text \<open>\<open>TokenBucket.__init__\<close>.\<close>

definition TokenBucket_init :: "real \<Rightarrow> real \<Rightarrow> TokenBucket" where
  "TokenBucket_init rate_tokens_per_sec burst_capacity =
     \<lparr>rate = rate_tokens_per_sec, capacity = burst_capacity,
      tokens = burst_capacity, last_time = None\<rparr>"

text \<open>
  \<open>TokenBucket.allow\<close>, statement by statement; the result is the returned boolean and
  the bucket as the call leaves it.
\<close>

definition allow :: "TokenBucket \<Rightarrow> real \<Rightarrow> bool \<times> TokenBucket" where
  "allow b now =
     (let (b1, last) = (case last_time b of
                          None \<Rightarrow> (b\<lparr>last_time := Some now\<rparr>, now)
                        | Some t \<Rightarrow> (b, t));
          elapsed = now - last;
          b2 = (if elapsed > 0
                then b1\<lparr>tokens := min (capacity b1) (tokens b1 + elapsed * rate b1),
                        last_time := Some now\<rparr>
                else b1)
      in if tokens b2 \<ge> 1
         then (True, b2\<lparr>tokens := tokens b2 - 1\<rparr>)
         else (False, b2))"

record ATMFilter =
  header_rule :: HeaderRule
  payload_rule :: PayloadRule
  policers :: "flow_key \<rightharpoonup> TokenBucket"

text \<open>
  The loop of \<open>ATMFilter.__init__\<close> over \<open>policer_cfg.items()\<close>, in the dictionary's
  order: one fresh bucket per configured flow.
\<close>

fun make_policers ::
  "(flow_key \<times> real \<times> real) list \<Rightarrow> (flow_key \<rightharpoonup> TokenBucket) \<Rightarrow> (flow_key \<rightharpoonup> TokenBucket)"
where
  "make_policers [] ps = ps"
| "make_policers ((k, (r, b)) # cfg) ps = make_policers cfg (ps(k \<mapsto> TokenBucket_init r b))"

definition ATMFilter_init ::
  "HeaderRule option \<Rightarrow> PayloadRule option \<Rightarrow> (flow_key \<times> real \<times> real) list option \<Rightarrow> ATMFilter"
where
  "ATMFilter_init hr pr policer_cfg =
     \<lparr>header_rule = (case hr of Some h \<Rightarrow> h | None \<Rightarrow> HeaderRule_init None),
      payload_rule = (case pr of Some p \<Rightarrow> p | None \<Rightarrow> PayloadRule_init None),
      policers = make_policers (case policer_cfg of Some c \<Rightarrow> c | None \<Rightarrow> []) Map.empty\<rparr>"

text \<open>
  \<open>ATMFilter.process\<close>. The returned tuple \<open>(action, reason)\<close> keeps the source's
  strings; \<open>reason\<close> is \<open>None\<close> on forward. The second component is the filter after the
  call: only a policed flow's bucket can change.
\<close>

type_synonym decision = "string \<times> string option"

definition process :: "ATMFilter \<Rightarrow> ATMCell \<Rightarrow> real \<Rightarrow> decision \<times> ATMFilter" where
  "process f cell now =
     (if HeaderRule_check (header_rule f) cell then ((''drop'', Some ''header''), f)
      else
        let key = header cell in
        case policers f key of
          Some b \<Rightarrow>
            (let (allowed, b') = allow b now;
                 f' = f\<lparr>policers := (policers f)(key \<mapsto> b')\<rparr>
             in if \<not> allowed then ((''drop'', Some ''policer''), f')
                else if PayloadRule_check (payload_rule f') cell
                     then ((''drop'', Some ''payload''), f')
                     else ((''forward'', None), f'))
        | None \<Rightarrow>
            (if PayloadRule_check (payload_rule f) cell
             then ((''drop'', Some ''payload''), f)
             else ((''forward'', None), f)))"

text \<open>
  A sequence of \<open>allow\<close> calls on one bucket at the given timestamps: the returned
  boolean of each call, paired with the bucket as that call leaves it.
\<close>

fun allow_calls :: "TokenBucket \<Rightarrow> real list \<Rightarrow> (bool \<times> TokenBucket) list" where
  "allow_calls b [] = []"
| "allow_calls b (t # ts) = (let r = allow b t in r # allow_calls (snd r) ts)"

text \<open>The timestamps \<open>t0, t0 + d, t0 + 2 d, ...\<close>, \<open>n\<close> of them.\<close>

definition spaced :: "real \<Rightarrow> real \<Rightarrow> nat \<Rightarrow> real list" where
  "spaced t0 d n = map (\<lambda>k. t0 + real k * d) [0..<n]"

text \<open>
  The specification's wording of \<open>Allow\<close> for a bucket that has been used before
  (its \<open>lastRefill\<close> is set): refill when time has advanced, then consume one token if
  one is there.
\<close>

definition allow_spec :: "TokenBucket \<Rightarrow> real \<Rightarrow> real \<Rightarrow> bool \<times> TokenBucket" where
  "allow_spec b lastRefill now =
     (let elapsed = now - lastRefill;
          refilled = (if elapsed > 0
                      then b\<lparr>tokens := min (capacity b) (tokens b + elapsed * rate b),
                             last_time := Some now\<rparr>
                      else b)
      in if tokens refilled \<ge> 1
         then (True, refilled\<lparr>tokens := tokens refilled - 1\<rparr>)
         else (False, refilled))"

section \<open>The library the simulation calls: random numbers and the wall clock\<close>

text \<open>
  Python's \<open>random\<close> module and \<open>time.time\<close> are not code of this repository. They are
  taken as parameters: the operations of the generator on its hidden state \<open>'g\<close>, and
  the sequence of readings that successive calls of \<open>time.time()\<close> return.
\<close>

datatype py_error = ZeroDivisionError

record 'g py_env =
  rnd_seed :: "int \<Rightarrow> 'g"
  rnd_choice :: "int list \<Rightarrow> 'g \<Rightarrow> int \<times> 'g"
  rnd_random :: "'g \<Rightarrow> real \<times> 'g"
  rnd_randint :: "int \<Rightarrow> int \<Rightarrow> 'g \<Rightarrow> int \<times> 'g"
  wall_clock :: "nat \<Rightarrow> real"

text \<open>The process state the library calls act on.\<close>

record 'g world =
  rng :: 'g
  clock_reads :: nat

definition time_time :: "'g py_env \<Rightarrow> 'g world \<Rightarrow> real \<times> 'g world" where
  "time_time E w = (wall_clock E (clock_reads w), w\<lparr>clock_reads := Suc (clock_reads w)\<rparr>)"

text \<open>\<open>random.random()\<close> returns a float in the half-open interval \<open>[0, 1)\<close>.\<close>

definition random_in_unit :: "'g py_env \<Rightarrow> bool" where
  "random_in_unit E = (\<forall>g. 0 \<le> fst (rnd_random E g) \<and> fst (rnd_random E g) < 1)"

text \<open>A small deterministic instance, to run the definitions on.\<close>

definition demo_env :: "nat py_env" where
  "demo_env =
     \<lparr>rnd_seed = (\<lambda>sd. nat \<bar>sd\<bar>),
      rnd_choice = (\<lambda>xs g. (xs ! (g mod length xs), Suc g)),
      rnd_random = (\<lambda>g. (real (g mod 10) / 10, Suc g)),
      rnd_randint = (\<lambda>a b g. (a + int g mod (b - a + 1), Suc g)),
      wall_clock = (\<lambda>k. 1000 + real k / 1000)\<rparr>"

definition demo_world :: "nat world" where
  "demo_world = \<lparr>rng = 0, clock_reads = 0\<rparr>"

section \<open>atm\_sim.py and app.py: traffic, counters and the two simulation loops\<close>

text \<open>\<open>ATMCell.__init__\<close>: the timestamp is one reading of the wall clock.\<close>

definition ATMCell_init ::
  "'g py_env \<Rightarrow> int \<Rightarrow> int \<Rightarrow> string \<Rightarrow> bool \<Rightarrow> 'g world \<Rightarrow> ATMCell \<times> 'g world" where
  "ATMCell_init E vp vc pl mal w =
     (let (now, w') = time_time E w
      in (\<lparr>vpi = vp, vci = vc, payload = pl, is_malicious = mal, timestamp = now\<rparr>, w'))"

text \<open>Python's \<open>str\<close> on an integer: decimal digits, with a minus sign when negative.\<close>

fun str_nat :: "nat \<Rightarrow> string" where
  "str_nat n = (if n < 10 then [''0123456789'' ! n]
                else str_nat (n div 10) @ [''0123456789'' ! (n mod 10)])"

definition str_int :: "int \<Rightarrow> string" where
  "str_int i = (if i < 0 then ''-'' @ str_nat (nat (- i)) else str_nat (nat i))"

text \<open>
  The start of \<open>generate_traffic\<close> (\<open>traffic_generator\<close> in app.py is the same code):
  seeding, \<open>t = 0.0\<close> and \<open>dt = 1.0 / total_rate\<close>, which raises when the rate is zero.
  The result is \<open>(t, dt)\<close> and the world.
\<close>

definition generate_traffic_start ::
  "'g py_env \<Rightarrow> real \<Rightarrow> int option \<Rightarrow> 'g world \<Rightarrow> py_error + (real \<times> real \<times> 'g world)" where
  "generate_traffic_start E total_rate seed w =
     (let w1 = (case seed of None \<Rightarrow> w | Some sd \<Rightarrow> w\<lparr>rng := rnd_seed E sd\<rparr>)
      in if total_rate = 0 then Inl ZeroDivisionError
         else Inr (0, 1 / total_rate, w1))"

text \<open>
  One pass through the body of the generator's \<open>while\<close> loop, up to the \<open>yield\<close>: the
  cell that is produced.
\<close>

definition next_cell :: "'g py_env \<Rightarrow> real \<Rightarrow> 'g world \<Rightarrow> ATMCell \<times> 'g world" where
  "next_cell E malicious_fraction w =
     (let (vp, g1) = rnd_choice E [0, 1, 2] (rng w);
          (vc, g2) = rnd_choice E [10, 20, 30, 40] g1;
          (u, g3) = rnd_random E g2;
          is_mal = (u < malicious_fraction);
          (pl, g4) = (if is_mal
                      then (let (n, g) = rnd_randint E 0 999 g3 in (''BADSIG_'' @ str_int n, g))
                      else (''NORMALDATA'', g3))
      in ATMCell_init E vp vc pl is_mal (w\<lparr>rng := g4\<rparr>))"

text \<open>
  The counters are a \<open>defaultdict(int)\<close>: a dictionary from names to integers in which
  reading a missing key with \<open>stats[k]\<close> creates it with value 0, while \<open>stats.get\<close>
  creates nothing.
\<close>

type_synonym stats = "string \<rightharpoonup> int"

definition dict_get :: "stats \<Rightarrow> string \<Rightarrow> int \<Rightarrow> int" where
  "dict_get s k d = (case s k of None \<Rightarrow> d | Some v \<Rightarrow> v)"

definition getitem :: "stats \<Rightarrow> string \<Rightarrow> int \<times> stats" where
  "getitem s k = (case s k of None \<Rightarrow> (0, s(k \<mapsto> 0)) | Some v \<Rightarrow> (v, s))"

text \<open>\<open>stats[k] += 1\<close>.\<close>

definition incr :: "stats \<Rightarrow> string \<Rightarrow> stats" where
  "incr s k = (let (v, s') = getitem s k in s'(k \<mapsto> v + 1))"

text \<open>The truth value of \<open>stats.get(k)\<close>: a missing key gives \<open>None\<close>, which is false, as is 0.\<close>

definition truthy_get :: "stats \<Rightarrow> string \<Rightarrow> bool" where
  "truthy_get s k = (case s k of None \<Rightarrow> False | Some v \<Rightarrow> v \<noteq> 0)"

text \<open>Python's \<open>/\<close> on two integers.\<close>

definition truediv :: "int \<Rightarrow> int \<Rightarrow> py_error + real" where
  "truediv a b = (if b = 0 then Inl ZeroDivisionError else Inr (real_of_int a / real_of_int b))"

text \<open>The text that an f-string puts for \<open>reason\<close>.\<close>

definition format_reason :: "string option \<Rightarrow> string" where
  "format_reason r = (case r of None \<Rightarrow> ''None'' | Some x \<Rightarrow> x)"

text \<open>
  The body of the \<open>for\<close> loop of \<open>run_simulation\<close>, from \<open>stats['total'] += 1\<close> to the
  last counter update; \<open>run_simulation_emit\<close> in app.py has the same statements.
\<close>

definition count_cell :: "ATMFilter \<Rightarrow> stats \<Rightarrow> ATMCell \<Rightarrow> real \<Rightarrow> stats \<times> ATMFilter" where
  "count_cell f s cell now =
     (let s1 = incr s ''total'';
          s2 = (if is_malicious cell then incr s1 ''mal_total'' else incr s1 ''legit_total'');
          ((action, reason), f') = process f cell now;
          s3 = (if action = ''drop''
                then (let s3 = incr s2 ''dropped'';
                          s4 = incr s3 (''dropped_'' @ format_reason reason)
                      in if is_malicious cell then incr s4 ''mal_dropped''
                         else incr s4 ''legit_dropped'')
                else (let s3 = incr s2 ''forwarded''
                      in if is_malicious cell then incr s3 ''mal_forwarded''
                         else incr s3 ''legit_forwarded''))
      in (s3, f'))"

text \<open>
  The \<open>for\<close> loop of \<open>run_simulation\<close> together with the generator it draws from: the
  generator's \<open>while t < duration_sec\<close>, one cell, the loop body, then \<open>t += dt\<close>. With a
  negative rate and a positive duration the source never leaves the loop; the value
  is then \<open>None\<close>.
\<close>

partial_function (option) sim_loop ::
  "'g py_env \<Rightarrow> real \<Rightarrow> real \<Rightarrow> real \<Rightarrow> real \<Rightarrow> real \<Rightarrow> 'g world \<Rightarrow> ATMFilter \<Rightarrow> stats
     \<Rightarrow> (stats \<times> ATMFilter \<times> 'g world) option"
where
  "sim_loop E duration_sec dt malicious_fraction now_base t w f s =
     (if t < duration_sec
      then (let (cell, w') = next_cell E malicious_fraction w;
                (s', f') = count_cell f s cell (now_base + t)
            in sim_loop E duration_sec dt malicious_fraction now_base (t + dt) w' f' s')
      else Some (s, f, w))"

text \<open>
  The result of a run: the counters, and the two rates that the source stores in the
  same dictionary under \<open>false_positive_rate\<close> and \<open>false_negative_rate\<close>.
\<close>

record sim_result =
  counters :: stats
  false_positive_rate :: real
  false_negative_rate :: real

text \<open>
  One derived rate of atm\_sim.py:
  \<open>(stats[num] / stats[den]) if stats.get(den) else 0.0\<close>.
\<close>

definition derived_rate :: "stats \<Rightarrow> string \<Rightarrow> string \<Rightarrow> py_error + (real \<times> stats)" where
  "derived_rate s num den =
     (if truthy_get s den
      then (let (a, s1) = getitem s num;
                (b, s2) = getitem s1 den
            in case truediv a b of Inl e \<Rightarrow> Inl e | Inr q \<Rightarrow> Inr (q, s2))
      else Inr (0, s))"

definition finalize :: "stats \<Rightarrow> py_error + sim_result" where
  "finalize s =
     (case derived_rate s ''legit_dropped'' ''legit_total'' of
        Inl e \<Rightarrow> Inl e
      | Inr (fpr, s1) \<Rightarrow>
          (case derived_rate s1 ''mal_forwarded'' ''mal_total'' of
             Inl e \<Rightarrow> Inl e
           | Inr (fnr, s2) \<Rightarrow>
               Inr \<lparr>counters = s2, false_positive_rate = fpr, false_negative_rate = fnr\<rparr>))"

text \<open>
  \<open>run_simulation\<close>. \<open>None\<close>: the run does not return; \<open>Some (Inl e)\<close>: it raises \<open>e\<close>;
  \<open>Some (Inr r)\<close>: it returns \<open>r\<close>.
\<close>

definition run_simulation ::
  "'g py_env \<Rightarrow> real \<Rightarrow> real \<Rightarrow> real \<Rightarrow> flow_key list option \<Rightarrow> string list option
     \<Rightarrow> (flow_key \<times> real \<times> real) list option \<Rightarrow> int option \<Rightarrow> 'g world
     \<Rightarrow> (py_error + sim_result) option"
where
  "run_simulation E duration rate' mal_frac header_deny sigs policer_cfg seed w =
     (let hdr = HeaderRule_init header_deny;
          pl = PayloadRule_init sigs;
          atm_filter = ATMFilter_init (Some hdr) (Some pl) policer_cfg;
          stats = Map.empty;
          (now_base, w1) = time_time E w
      in case generate_traffic_start E rate' seed w1 of
           Inl e \<Rightarrow> Some (Inl e)
         | Inr (t, dt, w2) \<Rightarrow>
             (case sim_loop E duration dt mal_frac now_base t w2 atm_filter stats of
                None \<Rightarrow> None
              | Some (s, f, w3) \<Rightarrow> Some (finalize s)))"

text \<open>What app.py sends to the socket: periodic snapshots, then the final result.\<close>

datatype event = Sim_update stats | Sim_done sim_result

text \<open>The dictionary \<open>emit_stats\<close>: twelve keys, each \<open>stats.get(k, 0)\<close>.\<close>

definition emit_keys :: "string list" where
  "emit_keys = [''total'', ''forwarded'', ''dropped'', ''dropped_header'', ''dropped_policer'',
     ''dropped_payload'', ''mal_total'', ''mal_forwarded'', ''mal_dropped'', ''legit_total'',
     ''legit_forwarded'', ''legit_dropped'']"

definition emit_stats :: "stats \<Rightarrow> stats" where
  "emit_stats s = map_of (map (\<lambda>k. (k, dict_get s k 0)) emit_keys)"

text \<open>
  The \<open>for\<close> loop of \<open>run_simulation_emit\<close> with its generator: as \<open>sim_loop\<close>, and after
  each cell a reading of the wall clock decides whether a snapshot is sent.
\<close>

partial_function (option) emit_loop ::
  "'g py_env \<Rightarrow> real \<Rightarrow> real \<Rightarrow> real \<Rightarrow> real \<Rightarrow> real \<Rightarrow> real \<Rightarrow> 'g world \<Rightarrow> ATMFilter \<Rightarrow> stats
     \<Rightarrow> real \<Rightarrow> nat \<Rightarrow> event list \<Rightarrow> (stats \<times> event list \<times> 'g world) option"
where
  "emit_loop E duration_sec dt malicious_fraction update_interval now_base t w f s
       last_emit_time batch_count out =
     (if t < duration_sec
      then (let (cell, w1) = next_cell E malicious_fraction w;
                (s', f') = count_cell f s cell (now_base + t);
                (tm, w2) = time_time E w1
            in if tm - last_emit_time \<ge> update_interval
               then (let out' = out @ [Sim_update (emit_stats s')];
                         (tm', w3) = time_time E w2
                     in emit_loop E duration_sec dt malicious_fraction update_interval now_base
                          (t + dt) w3 f' s' tm' (Suc batch_count) out')
               else emit_loop E duration_sec dt malicious_fraction update_interval now_base
                      (t + dt) w2 f' s' last_emit_time batch_count out)
      else Some (s, out, w))"

text \<open>
  One derived rate of app.py, on the plain dictionary \<open>final\<close>:
  \<open>(final.get(num, 0) / final.get(den, 1)) if final.get(den) else 0.0\<close>.
\<close>

definition derived_rate_emit :: "stats \<Rightarrow> string \<Rightarrow> string \<Rightarrow> py_error + real" where
  "derived_rate_emit s num den =
     (if truthy_get s den then truediv (dict_get s num 0) (dict_get s den 1) else Inr 0)"

definition finalize_emit :: "stats \<Rightarrow> py_error + sim_result" where
  "finalize_emit s =
     (case derived_rate_emit s ''legit_dropped'' ''legit_total'' of
        Inl e \<Rightarrow> Inl e
      | Inr fpr \<Rightarrow>
          (case derived_rate_emit s ''mal_forwarded'' ''mal_total'' of
             Inl e \<Rightarrow> Inl e
           | Inr fnr \<Rightarrow>
               Inr \<lparr>counters = s, false_positive_rate = fpr, false_negative_rate = fnr\<rparr>))"

text \<open>\<open>run_simulation_emit\<close>: the events sent, in order.\<close>

definition run_simulation_emit ::
  "'g py_env \<Rightarrow> real \<Rightarrow> real \<Rightarrow> real \<Rightarrow> flow_key list option \<Rightarrow> string list option
     \<Rightarrow> (flow_key \<times> real \<times> real) list option \<Rightarrow> real \<Rightarrow> int option \<Rightarrow> 'g world
     \<Rightarrow> (py_error + event list) option"
where
  "run_simulation_emit E duration rate' mal_frac header_deny sigs policer_cfg update_interval
       seed w =
     (let atm_filter = ATMFilter_init (Some (HeaderRule_init header_deny))
                         (Some (PayloadRule_init sigs)) policer_cfg;
          stats = Map.empty;
          (now_base, w1) = time_time E w;
          last_emit_time = now_base;
          batch_count = 0
      in case generate_traffic_start E rate' seed w1 of
           Inl e \<Rightarrow> Some (Inl e)
         | Inr (t, dt, w2) \<Rightarrow>
             (case emit_loop E duration dt mal_frac update_interval now_base t w2 atm_filter
                     stats last_emit_time batch_count [] of
                None \<Rightarrow> None
              | Some (s, out, w3) \<Rightarrow>
                  (case finalize_emit s of
                     Inl e \<Rightarrow> Some (Inl e)
                   | Inr final \<Rightarrow> Some (Inr (out @ [Sim_done final])))))"

text \<open>The two loops run by their defining equations.\<close>

declare sim_loop.simps [code]

declare emit_loop.simps [code]

section \<open>What the claims speak of\<close>

text \<open>The value of a counter, 0 when the key is absent.\<close>

definition counter :: "stats \<Rightarrow> string \<Rightarrow> int" where
  "counter s k = dict_get s k 0"

text \<open>The four balance equations between the counters.\<close>

definition counters_balanced :: "stats \<Rightarrow> bool" where
  "counters_balanced s =
     (counter s ''total'' = counter s ''forwarded'' + counter s ''dropped''
      \<and> counter s ''legit_total'' = counter s ''legit_forwarded'' + counter s ''legit_dropped''
      \<and> counter s ''mal_total'' = counter s ''mal_forwarded'' + counter s ''mal_dropped''
      \<and> counter s ''dropped'' =
          counter s ''dropped_header'' + counter s ''dropped_policer''
            + counter s ''dropped_payload'')"

fun event_balanced :: "event \<Rightarrow> bool" where
  "event_balanced (Sim_update s) = counters_balanced s"
| "event_balanced (Sim_done r) = counters_balanced (counters r)"

text \<open>The two rates of a result, as the specification gives them.\<close>

definition rates_as_specified :: "sim_result \<Rightarrow> bool" where
  "rates_as_specified r =
     ((0 < counter (counters r) ''legit_total'' \<longrightarrow>
         false_positive_rate r =
           real_of_int (counter (counters r) ''legit_dropped'')
             / real_of_int (counter (counters r) ''legit_total''))
      \<and> (counter (counters r) ''legit_total'' = 0 \<longrightarrow> false_positive_rate r = 0)
      \<and> (0 < counter (counters r) ''mal_total'' \<longrightarrow>
         false_negative_rate r =
           real_of_int (counter (counters r) ''mal_forwarded'')
             / real_of_int (counter (counters r) ''mal_total''))
      \<and> (counter (counters r) ''mal_total'' = 0 \<longrightarrow> false_negative_rate r = 0))"

section \<open>The same code in double arithmetic\<close>

text \<open>
  CPython's \<open>float\<close> is the IEEE 754 binary64 format: the result of \<open>+\<close>, \<open>-\<close>, \<open>*\<close> and \<open>/\<close>
  is the exact result rounded to the nearest double, a tie going to the double whose
  significand is even. \<open>round_double\<close> is that rounding for results in the normal range:
  the value is scaled by a power of two into \<open>[2^52, 2^53)\<close>, rounded to the nearest
  integer, and scaled back. Overflow, subnormal results, infinities and NaN are not
  modelled.
\<close>

definition round_half_even :: "real \<Rightarrow> int" where
  "round_half_even x =
     (let f = \<lfloor>x\<rfloor>; d = x - of_int f
      in if d < 1 / 2 then f else if 1 / 2 < d then f + 1 else if even f then f else f + 1)"

definition round_double :: "real \<Rightarrow> real" where
  "round_double x =
     (if x = 0 then 0
      else (let u = 2 powr (of_int \<lfloor>log 2 \<bar>x\<bar>\<rfloor> - 52)
            in sgn x * (of_int (round_half_even (\<bar>x\<bar> / u)) * u)))"

text \<open>The spacing of the doubles around \<open>x\<close>.\<close>

definition ulp_of :: "real \<Rightarrow> real" where
  "ulp_of x = 2 powr (of_int \<lfloor>log 2 \<bar>x\<bar>\<rfloor> - 52)"

text \<open>
  What the claims about the token bucket need of a rounding: it keeps the order, and
  0 and 1 are representable.
\<close>

definition monotone_rounding :: "(real \<Rightarrow> real) \<Rightarrow> bool" where
  "monotone_rounding rnd = ((\<forall>x y. x \<le> y \<longrightarrow> rnd x \<le> rnd y) \<and> rnd 0 = 0 \<and> rnd 1 = 1)"

text \<open>
  \<open>TokenBucket.allow\<close> again, with the rounding of each arithmetic result written out
  and the rounding function a parameter. With \<open>round_double\<close> it is what the program
  computes; with the identity it is \<open>allow\<close>.
\<close>

definition allow_fl :: "(real \<Rightarrow> real) \<Rightarrow> TokenBucket \<Rightarrow> real \<Rightarrow> bool \<times> TokenBucket" where
  "allow_fl rnd b now =
     (let (b1, last) = (case last_time b of
                          None \<Rightarrow> (b\<lparr>last_time := Some now\<rparr>, now)
                        | Some t \<Rightarrow> (b, t));
          elapsed = rnd (now - last);
          b2 = (if elapsed > 0
                then b1\<lparr>tokens := min (capacity b1) (rnd (tokens b1 + rnd (elapsed * rate b1))),
                        last_time := Some now\<rparr>
                else b1)
      in if tokens b2 \<ge> 1
         then (True, b2\<lparr>tokens := rnd (tokens b2 - 1)\<rparr>)
         else (False, b2))"

fun allow_fl_calls :: "(real \<Rightarrow> real) \<Rightarrow> TokenBucket \<Rightarrow> real list \<Rightarrow> (bool \<times> TokenBucket) list"
where
  "allow_fl_calls rnd b [] = []"
| "allow_fl_calls rnd b (t # ts) = (let r = allow_fl rnd b t in r # allow_fl_calls rnd (snd r) ts)"

text \<open>
  The condition on a sequence of timestamps that every refill the bucket computes
  reaches one token: at each call after the first, the computed \<open>elapsed\<close> is positive
  and the computed \<open>elapsed * rate\<close> is at least 1.
\<close>

fun refills_reach_one :: "(real \<Rightarrow> real) \<Rightarrow> real \<Rightarrow> real list \<Rightarrow> bool" where
  "refills_reach_one rnd r (t # t' # ts) =
     (0 < rnd (t' - t) \<and> 1 \<le> rnd (rnd (t' - t) * r) \<and> refills_reach_one rnd r (t' # ts))"
| "refills_reach_one rnd r ts = True"

text \<open>
  \<open>ATMFilter.process\<close>, the loop body, the generator's start, the loop and the final
  rates of atm\_sim.py, in the same way: \<open>dt = 1.0 / total_rate\<close>, \<open>now = now_base + t_offset\<close>,
  \<open>t += dt\<close> and the two divisions are rounded; comparisons and integer counters are
  exact.
\<close>

definition process_fl ::
  "(real \<Rightarrow> real) \<Rightarrow> ATMFilter \<Rightarrow> ATMCell \<Rightarrow> real \<Rightarrow> decision \<times> ATMFilter" where
  "process_fl rnd f cell now =
     (if HeaderRule_check (header_rule f) cell then ((''drop'', Some ''header''), f)
      else
        let key = header cell in
        case policers f key of
          Some b \<Rightarrow>
            (let (allowed, b') = allow_fl rnd b now;
                 f' = f\<lparr>policers := (policers f)(key \<mapsto> b')\<rparr>
             in if \<not> allowed then ((''drop'', Some ''policer''), f')
                else if PayloadRule_check (payload_rule f') cell
                     then ((''drop'', Some ''payload''), f')
                     else ((''forward'', None), f'))
        | None \<Rightarrow>
            (if PayloadRule_check (payload_rule f) cell
             then ((''drop'', Some ''payload''), f)
             else ((''forward'', None), f)))"

definition count_cell_fl ::
  "(real \<Rightarrow> real) \<Rightarrow> ATMFilter \<Rightarrow> stats \<Rightarrow> ATMCell \<Rightarrow> real \<Rightarrow> stats \<times> ATMFilter" where
  "count_cell_fl rnd f s cell now =
     (let s1 = incr s ''total'';
          s2 = (if is_malicious cell then incr s1 ''mal_total'' else incr s1 ''legit_total'');
          ((action, reason), f') = process_fl rnd f cell now;
          s3 = (if action = ''drop''
                then (let s3 = incr s2 ''dropped'';
                          s4 = incr s3 (''dropped_'' @ format_reason reason)
                      in if is_malicious cell then incr s4 ''mal_dropped''
                         else incr s4 ''legit_dropped'')
                else (let s3 = incr s2 ''forwarded''
                      in if is_malicious cell then incr s3 ''mal_forwarded''
                         else incr s3 ''legit_forwarded''))
      in (s3, f'))"

definition generate_traffic_start_fl ::
  "(real \<Rightarrow> real) \<Rightarrow> 'g py_env \<Rightarrow> real \<Rightarrow> int option \<Rightarrow> 'g world
     \<Rightarrow> py_error + (real \<times> real \<times> 'g world)" where
  "generate_traffic_start_fl rnd E total_rate seed w =
     (let w1 = (case seed of None \<Rightarrow> w | Some sd \<Rightarrow> w\<lparr>rng := rnd_seed E sd\<rparr>)
      in if total_rate = 0 then Inl ZeroDivisionError
         else Inr (0, rnd (1 / total_rate), w1))"

partial_function (option) sim_loop_fl ::
  "(real \<Rightarrow> real) \<Rightarrow> 'g py_env \<Rightarrow> real \<Rightarrow> real \<Rightarrow> real \<Rightarrow> real \<Rightarrow> real \<Rightarrow> 'g world
     \<Rightarrow> ATMFilter \<Rightarrow> stats \<Rightarrow> (stats \<times> ATMFilter \<times> 'g world) option"
where
  "sim_loop_fl rnd E duration_sec dt malicious_fraction now_base t w f s =
     (if t < duration_sec
      then (let (cell, w') = next_cell E malicious_fraction w;
                (s', f') = count_cell_fl rnd f s cell (rnd (now_base + t))
            in sim_loop_fl rnd E duration_sec dt malicious_fraction now_base (rnd (t + dt)) w' f' s')
      else Some (s, f, w))"

declare sim_loop_fl.simps [code]

definition truediv_fl :: "(real \<Rightarrow> real) \<Rightarrow> int \<Rightarrow> int \<Rightarrow> py_error + real" where
  "truediv_fl rnd a b =
     (if b = 0 then Inl ZeroDivisionError else Inr (rnd (real_of_int a / real_of_int b)))"

definition derived_rate_fl ::
  "(real \<Rightarrow> real) \<Rightarrow> stats \<Rightarrow> string \<Rightarrow> string \<Rightarrow> py_error + (real \<times> stats)" where
  "derived_rate_fl rnd s num den =
     (if truthy_get s den
      then (let (a, s1) = getitem s num;
                (b, s2) = getitem s1 den
            in case truediv_fl rnd a b of Inl e \<Rightarrow> Inl e | Inr q \<Rightarrow> Inr (q, s2))
      else Inr (0, s))"

definition finalize_fl :: "(real \<Rightarrow> real) \<Rightarrow> stats \<Rightarrow> py_error + sim_result" where
  "finalize_fl rnd s =
     (case derived_rate_fl rnd s ''legit_dropped'' ''legit_total'' of
        Inl e \<Rightarrow> Inl e
      | Inr (fpr, s1) \<Rightarrow>
          (case derived_rate_fl rnd s1 ''mal_forwarded'' ''mal_total'' of
             Inl e \<Rightarrow> Inl e
           | Inr (fnr, s2) \<Rightarrow>
               Inr \<lparr>counters = s2, false_positive_rate = fpr, false_negative_rate = fnr\<rparr>))"

definition run_simulation_fl ::
  "(real \<Rightarrow> real) \<Rightarrow> 'g py_env \<Rightarrow> real \<Rightarrow> real \<Rightarrow> real \<Rightarrow> flow_key list option
     \<Rightarrow> string list option \<Rightarrow> (flow_key \<times> real \<times> real) list option \<Rightarrow> int option \<Rightarrow> 'g world
     \<Rightarrow> (py_error + sim_result) option"
where
  "run_simulation_fl rnd E duration rate' mal_frac header_deny sigs policer_cfg seed w =
     (let hdr = HeaderRule_init header_deny;
          pl = PayloadRule_init sigs;
          atm_filter = ATMFilter_init (Some hdr) (Some pl) policer_cfg;
          stats = Map.empty;
          (now_base, w1) = time_time E w
      in case generate_traffic_start_fl rnd E rate' seed w1 of
           Inl e \<Rightarrow> Some (Inl e)
         | Inr (t, dt, w2) \<Rightarrow>
             (case sim_loop_fl rnd E duration dt mal_frac now_base t w2 atm_filter stats of
                None \<Rightarrow> None
              | Some (s, f, w3) \<Rightarrow> Some (finalize_fl rnd s)))"

text \<open>
  The first six values that the \<open>random\<close> module of CPython 3 returns after
  \<open>random.seed(10)\<close>, in the order in which \<open>generate_traffic\<close> asks for them:
  \<open>choice([0,1,2]) = 2\<close>, \<open>choice([10,20,30,40]) = 10\<close>,
  \<open>random() = 0.4288890546751146\<close>, then \<open>2\<close>, \<open>10\<close> and \<open>0.20609823213950174\<close>
  (the two floats are written as the exact fractions they are). The state of the
  generator is the number of values drawn since seeding; later draws are not used by
  a run of two cells, and the instance describes the generator for the seed 10 only.
  Every reading of the wall clock is the given value.
\<close>

definition py_random_seed_10 :: "real \<Rightarrow> nat py_env" where
  "py_random_seed_10 clock =
     \<lparr>rnd_seed = (\<lambda>sd. 0),
      rnd_choice = (\<lambda>xs g. (if g = 0 \<or> g = 3 then 2 else 10, Suc g)),
      rnd_random = (\<lambda>g. (if g = 2 then (3863089173636261 / 9007199254740992) else (464091960732589 / 2251799813685248), Suc g)),
      rnd_randint = (\<lambda>a b g. (a, Suc g)),
      wall_clock = (\<lambda>k. clock)\<rparr>"

text \<open>Four counters of an outcome, for comparing runs.\<close>

definition counters_of :: "(py_error + sim_result) option \<Rightarrow> (string \<times> int) list option" where
  "counters_of out =
     (case out of
        Some (Inr r) \<Rightarrow> Some (map (\<lambda>k. (k, counter (counters r) k))
                          [''total'', ''forwarded'', ''dropped'', ''dropped_policer''])
      | _ \<Rightarrow> None)"


section \<open>The header rule short-circuits the pipeline\<close>

text \<open>
  C1. A cell whose flow key is in the header denylist is answered \<open>(drop, header)\<close>
  whatever the policer table and the payload are, and the filter (so every bucket's
  tokens and last_time) is returned as it was.
\<close>

theorem header_denied_drops_and_frames:
  "header cell \<in> deny_list (header_rule f) \<Longrightarrow>
     process f cell now = ((''drop'', Some ''header''), f)"
  by (simp add: process_def HeaderRule_check_def)

theorem header_denied_drops_and_frames_witness:
  "header \<lparr>vpi = 1, vci = 30, payload = ''BADSIG_7'', is_malicious = True, timestamp = 0\<rparr>
     \<in> deny_list (header_rule (ATMFilter_init (Some (HeaderRule_init (Some [(1, 30)])))
          (Some (PayloadRule_init (Some [''BADSIG_''])))
          (Some [((1, 30), (50, 20))])))
   \<and> process (ATMFilter_init (Some (HeaderRule_init (Some [(1, 30)])))
          (Some (PayloadRule_init (Some [''BADSIG_''])))
          (Some [((1, 30), (50, 20))]))
        \<lparr>vpi = 1, vci = 30, payload = ''BADSIG_7'', is_malicious = True, timestamp = 0\<rparr> 5
      = ((''drop'', Some ''header''),
         ATMFilter_init (Some (HeaderRule_init (Some [(1, 30)])))
          (Some (PayloadRule_init (Some [''BADSIG_''])))
          (Some [((1, 30), (50, 20))]))"
proof -
  have h: "header \<lparr>vpi = 1, vci = 30, payload = ''BADSIG_7'', is_malicious = True, timestamp = 0\<rparr>
     \<in> deny_list (header_rule (ATMFilter_init (Some (HeaderRule_init (Some [(1, 30)])))
          (Some (PayloadRule_init (Some [''BADSIG_''])))
          (Some [((1, 30), (50, 20))])))"
    by (simp add: header_def ATMFilter_init_def HeaderRule_init_def)
  show ?thesis
    using h header_denied_drops_and_frames [OF h, of 5] by simp
qed

section \<open>Unpoliced flows\<close>

text \<open>
  C7. A cell that the header rule lets through and whose flow key has no bucket goes
  straight to the payload check: the answer is \<open>(drop, payload)\<close> or \<open>(forward, None)\<close>,
  never \<open>(drop, policer)\<close>, and the filter, with its policer table, is returned as it
  was (no bucket is read, changed or created).
\<close>

theorem unpoliced_flow_bypasses_policer:
  "header cell \<notin> deny_list (header_rule f) \<Longrightarrow> policers f (header cell) = None \<Longrightarrow>
     process f cell now =
       ((if PayloadRule_check (payload_rule f) cell
         then (''drop'', Some ''payload'') else (''forward'', None)), f)
     \<and> fst (process f cell now) \<noteq> (''drop'', Some ''policer'')
     \<and> policers (snd (process f cell now)) = policers f"
  by (simp add: process_def HeaderRule_check_def)

theorem unpoliced_flow_bypasses_policer_witness:
  "header \<lparr>vpi = 2, vci = 20, payload = ''NORMALDATA'', is_malicious = False, timestamp = 0\<rparr>
     \<notin> deny_list (header_rule
          \<lparr>header_rule = \<lparr>deny_list = {(1, 30)}\<rparr>, payload_rule = \<lparr>signatures = [''BADSIG_'']\<rparr>,
           policers = [(0, 10) \<mapsto> TokenBucket_init 50 20]\<rparr>)
   \<and> policers \<lparr>header_rule = \<lparr>deny_list = {(1, 30)}\<rparr>,
        payload_rule = \<lparr>signatures = [''BADSIG_'']\<rparr>,
        policers = [(0, 10) \<mapsto> TokenBucket_init 50 20]\<rparr>
       (header \<lparr>vpi = 2, vci = 20, payload = ''NORMALDATA'', is_malicious = False,
          timestamp = 0\<rparr>) = None
   \<and> fst (process \<lparr>header_rule = \<lparr>deny_list = {(1, 30)}\<rparr>,
        payload_rule = \<lparr>signatures = [''BADSIG_'']\<rparr>,
        policers = [(0, 10) \<mapsto> TokenBucket_init 50 20]\<rparr>
       \<lparr>vpi = 2, vci = 20, payload = ''NORMALDATA'', is_malicious = False, timestamp = 0\<rparr> 7)
      \<noteq> (''drop'', Some ''policer'')
   \<and> policers (snd (process \<lparr>header_rule = \<lparr>deny_list = {(1, 30)}\<rparr>,
        payload_rule = \<lparr>signatures = [''BADSIG_'']\<rparr>,
        policers = [(0, 10) \<mapsto> TokenBucket_init 50 20]\<rparr>
       \<lparr>vpi = 2, vci = 20, payload = ''NORMALDATA'', is_malicious = False, timestamp = 0\<rparr> 7))
      = [(0, 10) \<mapsto> TokenBucket_init 50 20]"
proof -
  let ?c = "\<lparr>vpi = 2, vci = 20, payload = ''NORMALDATA'', is_malicious = False, timestamp = 0\<rparr>"
  let ?f = "\<lparr>header_rule = \<lparr>deny_list = {(1, 30)}\<rparr>,
             payload_rule = \<lparr>signatures = [''BADSIG_'']\<rparr>,
             policers = [(0, 10) \<mapsto> TokenBucket_init 50 20]\<rparr>"
  have h1: "header ?c \<notin> deny_list (header_rule ?f)"
    by (simp add: header_def)
  have h2: "policers ?f (header ?c) = None"
    by (simp add: header_def)
  show ?thesis
    using h1 h2 unpoliced_flow_bypasses_policer [OF h1 h2, of 7] by simp
qed

section \<open>The token bucket\<close>

text \<open>
  C3. On a bucket that has been used before (\<open>last_time\<close> is \<open>Some lastRefill\<close>),
  \<open>allow\<close> is the function the specification describes: with
  \<open>elapsed = now - lastRefill\<close>, a positive \<open>elapsed\<close> sets the tokens to
  \<open>min capacity (tokens + elapsed * rate)\<close> and \<open>last_time\<close> to \<open>now\<close>, any other
  \<open>elapsed\<close> leaves the bucket alone and raises nothing; then one token is taken and
  \<open>True\<close> returned when at least 1 is there, and otherwise \<open>False\<close> with the bucket as
  the refill left it.
\<close>

theorem allow_refines_spec:
  "last_time b = Some lastRefill \<Longrightarrow> allow b now = allow_spec b lastRefill now"
  by (simp add: allow_def allow_spec_def Let_def)

theorem allow_refines_spec_witness:
  "last_time \<lparr>rate = 50, capacity = 20, tokens = 1 / 2, last_time = Some 3\<rparr> = Some 3
   \<and> allow \<lparr>rate = 50, capacity = 20, tokens = 1 / 2, last_time = Some 3\<rparr> 4
       = allow_spec \<lparr>rate = 50, capacity = 20, tokens = 1 / 2, last_time = Some 3\<rparr> 3 4
   \<and> allow \<lparr>rate = 50, capacity = 20, tokens = 1 / 2, last_time = Some 3\<rparr> 4
       = (True, \<lparr>rate = 50, capacity = 20, tokens = 19, last_time = Some 4\<rparr>)"
proof -
  have h: "last_time \<lparr>rate = 50, capacity = 20, tokens = 1 / 2, last_time = Some 3\<rparr> = Some 3"
    by simp
  show ?thesis
    using allow_refines_spec [OF h, of 4] by (simp add: allow_spec_def Let_def)
qed

lemma allow_keeps_range:
  assumes "0 \<le> rate b" "0 \<le> tokens b" "tokens b \<le> capacity b"
  shows "0 \<le> tokens (snd (allow b now)) \<and> tokens (snd (allow b now)) \<le> capacity b
       \<and> rate (snd (allow b now)) = rate b \<and> capacity (snd (allow b now)) = capacity b"
proof -
  have "0 \<le> e * rate b" if "0 < e" for e
    using that assms(1) by simp
  then show ?thesis
    using assms
    by (cases "last_time b") (auto simp: allow_def Let_def min_def add_nonneg_nonneg)
qed

lemma allow_calls_range:
  "0 \<le> rate b \<Longrightarrow> 0 \<le> tokens b \<Longrightarrow> tokens b \<le> capacity b \<Longrightarrow>
   x \<in> set (allow_calls b ts) \<Longrightarrow>
   0 \<le> tokens (snd x) \<and> tokens (snd x) \<le> capacity b"
proof (induction ts arbitrary: b)
  case Nil
  then show ?case by simp
next
  case (Cons t ts)
  from allow_keeps_range [OF Cons.prems(1-3), of t]
  have k: "0 \<le> tokens (snd (allow b t))" "tokens (snd (allow b t)) \<le> capacity b"
    "rate (snd (allow b t)) = rate b" "capacity (snd (allow b t)) = capacity b"
    by simp_all
  from Cons.prems(4) consider "x = allow b t" | "x \<in> set (allow_calls (snd (allow b t)) ts)"
    by (auto simp: Let_def)
  then show ?case
  proof cases
    case 1
    then show ?thesis using k by simp
  next
    case 2
    have "0 \<le> tokens (snd x) \<and> tokens (snd x) \<le> capacity (snd (allow b t))"
      by (rule Cons.IH [OF _ _ _ 2]) (use k Cons.prems in simp_all)
    then show ?thesis using k by simp
  qed
qed

text \<open>
  C2, as the code has it. For a bucket built with a rate \<open>r \<ge> 0\<close> and a capacity
  \<open>c \<ge> 0\<close>, after each call of a sequence of \<open>allow\<close> calls with non-decreasing
  timestamps the token count lies in \<open>[0, c]\<close>.
\<close>

theorem tokens_stay_in_range:
  "0 \<le> r \<Longrightarrow> 0 \<le> c \<Longrightarrow> sorted ts \<Longrightarrow>
   (ok, b') \<in> set (allow_calls (TokenBucket_init r c) ts) \<Longrightarrow>
   0 \<le> tokens b' \<and> tokens b' \<le> c"
  using allow_calls_range [of "TokenBucket_init r c" "(ok, b')" ts]
  by (simp add: TokenBucket_init_def)

theorem tokens_stay_in_range_witness:
  "(0::real) \<le> 50 \<and> (0::real) \<le> 20 \<and> sorted [0::real, 1/100] \<and>
   (True, \<lparr>rate = 50, capacity = 20, tokens = 19, last_time = Some 0\<rparr>)
      \<in> set (allow_calls (TokenBucket_init 50 20) [0, 1/100]) \<and>
   0 \<le> tokens \<lparr>rate = 50, capacity = 20, tokens = 19, last_time = Some 0\<rparr> \<and>
   tokens \<lparr>rate = 50, capacity = 20, tokens = 19, last_time = Some 0\<rparr> \<le> (20::real)"
proof -
  have m: "(True, \<lparr>rate = 50, capacity = 20, tokens = 19, last_time = Some 0\<rparr>)
      \<in> set (allow_calls (TokenBucket_init 50 20) [0, 1/100])"
    by (simp add: allow_def TokenBucket_init_def Let_def)
  show ?thesis
    using m tokens_stay_in_range [of 50 20 "[0, 1/100]", OF _ _ _ m] by simp
qed

text \<open>
  C2 as stated, for every rate and capacity, fails. With rate \<open>-1\<close> and capacity 5, calls
  at times 0 and 10 leave \<open>-6\<close> tokens; with capacity \<open>-5\<close> the first call already leaves
  \<open>-5\<close>.
\<close>

theorem tokens_range_counterexample:
  "sorted [0::real, 10] \<and>
   allow_calls (TokenBucket_init (-1) 5) [0, 10] =
     [(True, \<lparr>rate = -1, capacity = 5, tokens = 4, last_time = Some 0\<rparr>),
      (False, \<lparr>rate = -1, capacity = 5, tokens = -6, last_time = Some 10\<rparr>)] \<and>
   \<not> (0 \<le> tokens \<lparr>rate = -1, capacity = 5, tokens = -6, last_time = Some 10\<rparr>) \<and>
   allow_calls (TokenBucket_init 1 (-5)) [0] =
     [(False, \<lparr>rate = 1, capacity = -5, tokens = -5, last_time = Some 0\<rparr>)]"
  by (simp add: allow_def TokenBucket_init_def Let_def)

lemma spaced_Suc: "spaced t0 d (Suc n) = t0 # spaced (t0 + d) d n"
  unfolding spaced_def by (simp add: map_upt_Suc del: upt_Suc) (simp add: algebra_simps)

lemma spaced_0: "spaced t0 d 0 = []"
  by (simp add: spaced_def)

subsection \<open>Rounding to the nearest double\<close>

lemma round_half_even_of_int [simp]: "round_half_even (of_int n) = n"
  by (simp add: round_half_even_def)

lemma round_half_even_bounds:
  "\<lfloor>x\<rfloor> \<le> round_half_even x \<and> round_half_even x \<le> \<lfloor>x\<rfloor> + 1"
  by (simp add: round_half_even_def Let_def)

lemma round_half_even_floor_eq:
  "round_half_even x = \<lfloor>x\<rfloor> \<or> round_half_even x = \<lfloor>x\<rfloor> + 1"
  by (simp add: round_half_even_def Let_def)

lemma round_half_even_mono: "x \<le> y \<Longrightarrow> round_half_even x \<le> round_half_even y"
proof -
  assume xy: "x \<le> y"
  then have f: "\<lfloor>x\<rfloor> \<le> \<lfloor>y\<rfloor>" by (rule floor_mono)
  show ?thesis
  proof (cases "\<lfloor>x\<rfloor> = \<lfloor>y\<rfloor>")
    case True
    then have "x - of_int \<lfloor>x\<rfloor> \<le> y - of_int \<lfloor>y\<rfloor>" using xy by simp
    then show ?thesis using True
      by (auto simp: round_half_even_def Let_def)
  next
    case False
    with f have "\<lfloor>x\<rfloor> + 1 \<le> \<lfloor>y\<rfloor>" by simp
    with round_half_even_bounds [of x] round_half_even_bounds [of y] show ?thesis by linarith
  qed
qed

lemma round_half_even_ge: "of_int a \<le> x \<Longrightarrow> a \<le> round_half_even x"
  using round_half_even_mono [of "of_int a" x] by simp

lemma round_half_even_le: "x \<le> of_int b \<Longrightarrow> round_half_even x \<le> b"
  using round_half_even_mono [of x "of_int b"] by simp

lemma round_double_alt:
  "round_double x = (if x = 0 then 0 else sgn x * (of_int (round_half_even (\<bar>x\<bar> / ulp_of x)) * ulp_of x))"
  by (simp add: round_double_def ulp_of_def Let_def)

lemma ulp_of_pos: "0 < ulp_of x"
  by (simp add: ulp_of_def)

lemma binade:
  assumes "0 < x"
  shows "2 powr (of_int \<lfloor>log 2 x\<rfloor>) \<le> x \<and> x < 2 powr (of_int \<lfloor>log 2 x\<rfloor> + 1)"
proof -
  have x: "2 powr (log 2 x) = x" using assms by simp
  have "(2::real) powr (of_int \<lfloor>log 2 x\<rfloor>) \<le> 2 powr (log 2 x)"
    by (rule powr_mono) simp_all
  then have a: "2 powr (of_int \<lfloor>log 2 x\<rfloor>) \<le> x" by (simp only: x)
  have "log 2 x < of_int \<lfloor>log 2 x\<rfloor> + 1" by linarith
  then have "(2::real) powr (log 2 x) < 2 powr (of_int \<lfloor>log 2 x\<rfloor> + 1)"
    by (rule powr_less_mono) simp
  then have b: "x < 2 powr (of_int \<lfloor>log 2 x\<rfloor> + 1)" by (simp only: x)
  from a b show ?thesis by simp
qed

lemma scaled_range:
  assumes "x \<noteq> 0"
  shows "2 ^ 52 \<le> \<bar>x\<bar> / ulp_of x \<and> \<bar>x\<bar> / ulp_of x < 2 ^ 53"
proof -
  let ?e = "of_int \<lfloor>log 2 \<bar>x\<bar>\<rfloor> :: real"
  from assms have p: "0 < \<bar>x\<bar>" by simp
  from binade [OF p] have a: "2 powr ?e \<le> \<bar>x\<bar>" and b: "\<bar>x\<bar> < 2 powr (?e + 1)" by simp_all
  have u: "ulp_of x = 2 powr ?e / 2 ^ 52"
    by (simp add: ulp_of_def powr_diff)
  have pe: "0 < 2 powr ?e" by simp
  define q where "q = \<bar>x\<bar> / 2 powr ?e"
  have "\<bar>x\<bar> / ulp_of x = q * 2 ^ 52" by (simp add: u q_def)
  moreover have "1 \<le> q" using a pe by (simp add: q_def le_divide_eq)
  moreover have "q < 2" using b pe by (simp add: q_def divide_less_eq powr_add)
  ultimately show ?thesis by simp
qed

lemma round_double_range:
  assumes "0 < x"
  shows "2 powr (of_int \<lfloor>log 2 x\<rfloor>) \<le> round_double x
       \<and> round_double x \<le> 2 powr (of_int \<lfloor>log 2 x\<rfloor> + 1)"
proof -
  let ?e = "of_int \<lfloor>log 2 x\<rfloor> :: real"
  let ?m = "round_half_even (x / ulp_of x)"
  from assms have nz: "x \<noteq> 0" and ab: "\<bar>x\<bar> = x" by simp_all
  from scaled_range [OF nz] ab have s: "2 ^ 52 \<le> x / ulp_of x" "x / ulp_of x < 2 ^ 53" by simp_all
  have "(of_int (2 ^ 52) :: real) \<le> x / ulp_of x" using s(1) by simp
  then have lo: "2 ^ 52 \<le> ?m" by (rule round_half_even_ge)
  have "x / ulp_of x \<le> (of_int (2 ^ 53) :: real)" using s(2) by simp
  then have hi: "?m \<le> 2 ^ 53" by (rule round_half_even_le)
  have u: "ulp_of x = 2 powr ?e / 2 ^ 52"
    using ab by (simp add: ulp_of_def powr_diff)
  have rd: "round_double x = of_int ?m * ulp_of x"
    using assms by (simp add: round_double_alt)
  have "(2 ^ 52 :: real) \<le> of_int ?m" using lo by (metis of_int_le_iff of_int_numeral of_int_power)
  then have "2 ^ 52 * ulp_of x \<le> of_int ?m * ulp_of x"
    using ulp_of_pos [of x] by simp
  then have a: "2 powr ?e \<le> round_double x" by (simp add: rd u)
  have "of_int ?m \<le> (2 ^ 53 :: real)" using hi by (metis of_int_le_iff of_int_numeral of_int_power)
  then have "of_int ?m * ulp_of x \<le> 2 ^ 53 * ulp_of x"
    using ulp_of_pos [of x] by simp
  then have b: "round_double x \<le> 2 powr (?e + 1)" by (simp add: rd u powr_add)
  from a b show ?thesis by simp
qed

lemma round_double_pos_mono:
  assumes "0 < x" "x \<le> y"
  shows "round_double x \<le> round_double y"
proof (cases "\<lfloor>log 2 x\<rfloor> = \<lfloor>log 2 y\<rfloor>")
  case True
  from assms have y: "0 < y" by simp
  from True assms y have u: "ulp_of x = ulp_of y" by (simp add: ulp_of_def)
  have "x / ulp_of y \<le> y / ulp_of y" using assms ulp_of_pos [of y] by (simp add: divide_right_mono)
  then have "round_half_even (x / ulp_of y) \<le> round_half_even (y / ulp_of y)"
    by (rule round_half_even_mono)
  then have "of_int (round_half_even (x / ulp_of y)) * ulp_of y
           \<le> of_int (round_half_even (y / ulp_of y)) * ulp_of y"
    using ulp_of_pos [of y] by simp
  then show ?thesis using assms y u by (simp add: round_double_alt)
next
  case False
  from assms have y: "0 < y" by simp
  have "log 2 x \<le> log 2 y" using assms by simp
  then have "\<lfloor>log 2 x\<rfloor> \<le> \<lfloor>log 2 y\<rfloor>" by (rule floor_mono)
  with False have "\<lfloor>log 2 x\<rfloor> + 1 \<le> \<lfloor>log 2 y\<rfloor>" by simp
  then have "(of_int \<lfloor>log 2 x\<rfloor> :: real) + 1 \<le> of_int \<lfloor>log 2 y\<rfloor>"
    by (metis of_int_1 of_int_add of_int_le_iff)
  then have "(2::real) powr (of_int \<lfloor>log 2 x\<rfloor> + 1) \<le> 2 powr (of_int \<lfloor>log 2 y\<rfloor>)"
    by simp
  with round_double_range [OF assms(1)] round_double_range [OF y] show ?thesis by linarith
qed

lemma round_double_0 [simp]: "round_double 0 = 0"
  by (simp add: round_double_def)

lemma round_double_minus: "round_double (- x) = - round_double x"
  by (simp add: round_double_def Let_def sgn_minus)

lemma round_double_nonneg: "0 \<le> x \<Longrightarrow> 0 \<le> round_double x"
proof (cases "x = 0")
  case True
  then show ?thesis by simp
next
  case False
  assume "0 \<le> x"
  with False have p: "0 < x" by simp
  from round_double_range [OF p] have "2 powr (of_int \<lfloor>log 2 x\<rfloor>) \<le> round_double x" by simp
  moreover have "(0::real) < 2 powr (of_int \<lfloor>log 2 x\<rfloor>)" by simp
  ultimately show ?thesis by linarith
qed

lemma round_double_mono: "x \<le> y \<Longrightarrow> round_double x \<le> round_double y"
proof -
  assume xy: "x \<le> y"
  consider "0 < x" | "x \<le> 0" "0 \<le> y" | "y < 0" by linarith
  then show ?thesis
  proof cases
    case 1
    then show ?thesis using xy by (rule round_double_pos_mono)
  next
    case 2
    have "round_double x = - round_double (- x)" by (simp add: round_double_minus)
    moreover have "0 \<le> round_double (- x)" using 2(1) by (simp add: round_double_nonneg)
    moreover have "0 \<le> round_double y" using 2(2) by (rule round_double_nonneg)
    ultimately show ?thesis by linarith
  next
    case 3
    then have "0 < - y" "- y \<le> - x" using xy by simp_all
    then have "round_double (- y) \<le> round_double (- x)" by (rule round_double_pos_mono)
    then show ?thesis by (simp add: round_double_minus)
  qed
qed

lemma round_double_1 [simp]: "round_double 1 = 1"
  by (simp add: round_double_def round_half_even_def Let_def powr_minus)

lemma floor_log2_eq:
  assumes "2 powr (of_int e) \<le> x" "x < 2 powr (of_int e + 1)"
  shows "\<lfloor>log 2 x\<rfloor> = e"
proof -
  have p: "0 < x" using assms(1) by (smt (verit) powr_gt_zero)
  have a: "of_int e \<le> log 2 x" using assms(1) p by (simp add: le_log_iff)
  have b: "log 2 x < of_int e + 1" using assms(2) p by (simp add: log_less_iff)
  from a b show ?thesis by linarith
qed

lemma round_double_in_binade:
  assumes "2 powr (of_int e) \<le> \<bar>x\<bar>" "\<bar>x\<bar> < 2 powr (of_int e + 1)"
  shows "round_double x
       = sgn x * (of_int (round_half_even (\<bar>x\<bar> / 2 powr (of_int e - 52))) * 2 powr (of_int e - 52))"
proof -
  have "x \<noteq> 0" using assms(1) by (smt (verit) powr_gt_zero)
  moreover have "\<lfloor>log 2 \<bar>x\<bar>\<rfloor> = e" using assms by (rule floor_log2_eq)
  ultimately show ?thesis by (simp add: round_double_def Let_def)
qed

subsection \<open>Calls at which every computed refill reaches one token\<close>

lemma allow_fl_exact: "allow_fl (\<lambda>x. x) b now = allow b now"
  by (simp add: allow_fl_def allow_def)

lemma monotone_rounding_double: "monotone_rounding round_double"
  by (simp add: monotone_rounding_def round_double_mono)

lemma allow_fl_fresh:
  assumes "monotone_rounding rnd" "last_time b = None" "1 \<le> tokens b"
  shows "fst (allow_fl rnd b t) \<and> last_time (snd (allow_fl rnd b t)) = Some t
       \<and> 0 \<le> tokens (snd (allow_fl rnd b t))
       \<and> rate (snd (allow_fl rnd b t)) = rate b \<and> capacity (snd (allow_fl rnd b t)) = capacity b"
proof -
  from assms(1) have z: "rnd 0 = 0" and m: "\<And>x y. x \<le> y \<Longrightarrow> rnd x \<le> rnd y"
    by (simp_all add: monotone_rounding_def)
  from m [of 0 "tokens b - 1"] assms(3) z have "0 \<le> rnd (tokens b - 1)" by simp
  then show ?thesis using assms(2,3) z by (simp add: allow_fl_def Let_def)
qed

lemma allow_fl_refilled:
  assumes "monotone_rounding rnd" "last_time b = Some t0" "0 \<le> tokens b" "1 \<le> capacity b"
    and "0 < rnd (t - t0)" "1 \<le> rnd (rnd (t - t0) * rate b)"
  shows "fst (allow_fl rnd b t) \<and> last_time (snd (allow_fl rnd b t)) = Some t
       \<and> 0 \<le> tokens (snd (allow_fl rnd b t))
       \<and> rate (snd (allow_fl rnd b t)) = rate b \<and> capacity (snd (allow_fl rnd b t)) = capacity b"
proof -
  from assms(1) have z: "rnd 0 = 0" and o: "rnd 1 = 1"
    and m: "\<And>x y. x \<le> y \<Longrightarrow> rnd x \<le> rnd y"
    by (simp_all add: monotone_rounding_def)
  let ?x = "rnd (rnd (t - t0) * rate b)"
  let ?s = "rnd (tokens b + ?x)"
  have "1 \<le> tokens b + ?x" using assms(3,6) by linarith
  from m [OF this] o have s: "1 \<le> ?s" by simp
  then have k: "1 \<le> min (capacity b) ?s" using assms(4) by simp
  then have "0 \<le> min (capacity b) ?s - 1" by simp
  from m [OF this] z have "0 \<le> rnd (min (capacity b) ?s - 1)" by simp
  then show ?thesis using assms(2,5) k by (simp add: allow_fl_def Let_def)
qed

lemma allow_fl_calls_refilled:
  "monotone_rounding rnd \<Longrightarrow> 1 \<le> capacity b \<Longrightarrow> 0 \<le> tokens b \<Longrightarrow>
   last_time b = Some t0 \<Longrightarrow> refills_reach_one rnd (rate b) (t0 # ts) \<Longrightarrow>
   x \<in> set (allow_fl_calls rnd b ts) \<Longrightarrow> fst x"
proof (induction ts arbitrary: b t0)
  case Nil
  then show ?case by simp
next
  case (Cons t ts)
  from Cons.prems(5) have e: "0 < rnd (t - t0)" "1 \<le> rnd (rnd (t - t0) * rate b)"
    and rest: "refills_reach_one rnd (rate b) (t # ts)" by simp_all
  note k = allow_fl_refilled [OF Cons.prems(1) Cons.prems(4) Cons.prems(3) Cons.prems(2) e]
  from Cons.prems(6) consider "x = allow_fl rnd b t"
    | "x \<in> set (allow_fl_calls rnd (snd (allow_fl rnd b t)) ts)"
    by (auto simp: Let_def)
  then show ?case
  proof cases
    case 1
    then show ?thesis using k by simp
  next
    case 2
    show ?thesis
      by (rule Cons.IH [OF Cons.prems(1) _ _ _ _ 2, of t]) (use k Cons.prems(2) rest in simp_all)
  qed
qed

lemma process_fl_exact: "process_fl (\<lambda>x. x) f cell now = process f cell now"
  by (simp add: process_fl_def process_def allow_fl_exact Let_def split: option.splits)

lemma count_cell_fl_exact: "count_cell_fl (\<lambda>x. x) f s cell now = count_cell f s cell now"
  by (simp add: count_cell_fl_def count_cell_def process_fl_exact Let_def)

lemma spaced_refills_exact:
  "0 < d \<Longrightarrow> 1 \<le> d * r \<Longrightarrow> refills_reach_one (\<lambda>x. x) r (spaced t0 d n)"
proof (induction n arbitrary: t0)
  case 0
  then show ?case by (simp add: spaced_0)
next
  case (Suc n)
  show ?case
  proof (cases n)
    case 0
    then show ?thesis by (simp add: spaced_Suc spaced_0)
  next
    case (Suc m)
    from Suc.IH [OF Suc.prems, of "t0 + d"] Suc Suc.prems show ?thesis
      by (simp add: spaced_Suc)
  qed
qed

text \<open>
  C8, as the code has it. For a bucket with capacity \<open>c \<ge> 1\<close> and a sequence of \<open>allow\<close>
  calls, however long, in which at each call after the first the elapsed time that the
  bucket computes is positive and the refill \<open>elapsed * rate\<close> that it computes is at
  least 1, every call returns \<open>True\<close>. This holds for every rounding that keeps the order
  and leaves 0 and 1 alone, the rounding to the nearest double among them; in exact
  arithmetic the condition is the claim's \<open>d > 0\<close> and \<open>d * r \<ge> 1\<close>
  (\<open>spaced_refills_exact\<close>).
\<close>

theorem computed_refills_all_allowed:
  "monotone_rounding rnd \<Longrightarrow> 1 \<le> c \<Longrightarrow> refills_reach_one rnd r ts \<Longrightarrow>
   (ok, b') \<in> set (allow_fl_calls rnd (TokenBucket_init r c) ts) \<Longrightarrow> ok"
proof (cases ts)
  case Nil
  assume "(ok, b') \<in> set (allow_fl_calls rnd (TokenBucket_init r c) ts)"
  with Nil show ?thesis by simp
next
  case (Cons t ts')
  assume mr: "monotone_rounding rnd" and c: "1 \<le> c" and rr: "refills_reach_one rnd r ts"
    and mem: "(ok, b') \<in> set (allow_fl_calls rnd (TokenBucket_init r c) ts)"
  let ?b = "TokenBucket_init r c"
  have f: "last_time ?b = None" "1 \<le> tokens ?b" using c by (simp_all add: TokenBucket_init_def)
  note k = allow_fl_fresh [OF mr f, of t]
  from mem Cons consider "(ok, b') = allow_fl rnd ?b t"
    | "(ok, b') \<in> set (allow_fl_calls rnd (snd (allow_fl rnd ?b t)) ts')"
    by (auto simp: Let_def)
  then show ?thesis
  proof cases
    case 1
    then show ?thesis using k by (metis fst_conv)
  next
    case 2
    have "fst (ok, b')"
      by (rule allow_fl_calls_refilled [OF mr _ _ _ _ 2, of t])
         (use k c rr Cons in \<open>simp_all add: TokenBucket_init_def\<close>)
    then show ?thesis by simp
  qed
qed

theorem computed_refills_all_allowed_witness:
  "(1::real) \<le> 1
   \<and> refills_reach_one round_double 1 [0, 1, 2]
   \<and> map fst (allow_fl_calls round_double (TokenBucket_init 1 1) [0, 1, 2]) = [True, True, True]
   \<and> (True, \<lparr>rate = 1, capacity = 1, tokens = 0, last_time = Some 2\<rparr>)
        \<in> set (allow_fl_calls round_double (TokenBucket_init 1 1) [0, 1, 2])"
proof -
  have h1: "monotone_rounding round_double" by (rule monotone_rounding_double)
  have h2: "(1::real) \<le> 1" by simp
  have h3: "refills_reach_one round_double 1 [0, 1, 2]" by simp
  have e: "map fst (allow_fl_calls round_double (TokenBucket_init 1 1) [0, 1, 2]) = [True, True, True]"
    by (simp add: allow_fl_def TokenBucket_init_def Let_def)
  have m: "(True, \<lparr>rate = 1, capacity = 1, tokens = 0, last_time = Some 2\<rparr>)
        \<in> set (allow_fl_calls round_double (TokenBucket_init 1 1) [0, 1, 2])"
    by (simp add: allow_fl_def TokenBucket_init_def Let_def)
  show ?thesis
    using h2 h3 e m computed_refills_all_allowed [OF h1 h2 h3 m] by simp
qed

lemma rd_c8_elapsed: "round_double (752928329539165373 / 36893488147419103232) = 5882252574524729 / 288230376151711744"
  by (subst round_double_in_binade [where e = "-6"])
     (simp_all add: round_half_even_def Let_def powr_minus)

lemma rd_c8_refill: "round_double (288230376151711721 / 288230376151711744) = 9007199254740991 / 9007199254740992"
  by (subst round_double_in_binade [where e = "-1"])
     (simp_all add: round_half_even_def Let_def powr_minus)

lemma rd_c8_sum: "round_double (9007199254740991 / 9007199254740992) = 9007199254740991 / 9007199254740992"
  by (subst round_double_in_binade [where e = "-1"])
     (simp_all add: round_half_even_def Let_def powr_minus)

lemma rd_c8_t0: "round_double (- (61 / 36893488147419103232)) = - (61 / 36893488147419103232)"
  by (subst round_double_in_binade [where e = "-60"])
     (simp_all add: round_half_even_def Let_def powr_minus)

lemma rd_c8_t1: "round_double (5882252574524729 / 288230376151711744) = 5882252574524729 / 288230376151711744"
  by (subst round_double_in_binade [where e = "-6"])
     (simp_all add: round_half_even_def Let_def powr_minus)

lemma rd_three_halves: "round_double (3 / 2) = 3 / 2"
  by (subst round_double_in_binade [where e = 0])
     (simp_all add: round_half_even_def Let_def powr_minus)

text \<open>
  C8 as stated fails in two ways. A bucket of capacity \<open>1/2\<close> and rate 1, called at times
  0 and 1 (so \<open>d * r = 1\<close>), refuses both calls, in exact and in double arithmetic: its
  tokens never reach 1. And with capacity 1 and rate 49, the two doubles
  \<open>-61 / 2^65\<close> and \<open>5882252574524729 / 2^58\<close> (the double nearest to \<open>1/49\<close>) are \<open>d\<close>
  apart with \<open>d > 0\<close> and \<open>d * 49 \<ge> 1\<close>, yet in double arithmetic the second call is
  refused: the computed \<open>elapsed\<close> is rounded down to \<open>5882252574524729 / 2^58\<close>, and the
  computed \<open>elapsed * 49\<close> is \<open>1 - 2^-53\<close>.
\<close>

theorem spaced_calls_counterexample:
  "(0::real) < 1 \<and> (1::real) \<le> 1 * 1 \<and>
   allow_calls (TokenBucket_init 1 (1/2)) (spaced 0 1 2) =
     [(False, \<lparr>rate = 1, capacity = 1/2, tokens = 1/2, last_time = Some 0\<rparr>),
      (False, \<lparr>rate = 1, capacity = 1/2, tokens = 1/2, last_time = Some 1\<rparr>)] \<and>
   map fst (allow_fl_calls round_double (TokenBucket_init 1 (1/2)) (spaced 0 1 2)) = [False, False] \<and>
   round_double (- (61 / 2 ^ 65)) = - (61 / 2 ^ 65) \<and>
   round_double (- (61 / 2 ^ 65) + (5882252574524729 / 2 ^ 58 + 61 / 2 ^ 65))
     = - (61 / 2 ^ 65) + (5882252574524729 / 2 ^ 58 + 61 / 2 ^ 65) \<and>
   (0::real) < 5882252574524729 / 2 ^ 58 + 61 / 2 ^ 65 \<and>
   (1::real) \<le> (5882252574524729 / 2 ^ 58 + 61 / 2 ^ 65) * 49 \<and>
   (1::real) \<le> 1 \<and>
   map fst (allow_fl_calls round_double (TokenBucket_init 49 1)
              (spaced (- (61 / 2 ^ 65)) (5882252574524729 / 2 ^ 58 + 61 / 2 ^ 65) 2))
     = [True, False]"
proof -
  note rd = rd_three_halves rd_c8_elapsed rd_c8_refill rd_c8_sum rd_c8_t0 rd_c8_t1
  have a: "allow_calls (TokenBucket_init 1 (1/2)) (spaced 0 1 2) =
     [(False, \<lparr>rate = 1, capacity = 1/2, tokens = 1/2, last_time = Some 0\<rparr>),
      (False, \<lparr>rate = 1, capacity = 1/2, tokens = 1/2, last_time = Some 1\<rparr>)]"
    by (simp add: allow_def TokenBucket_init_def Let_def numeral_2_eq_2 spaced_Suc spaced_0)
  have b: "map fst (allow_fl_calls round_double (TokenBucket_init 1 (1/2)) (spaced 0 1 2))
      = [False, False]"
    by (simp add: allow_fl_def TokenBucket_init_def Let_def numeral_2_eq_2 spaced_Suc spaced_0 rd)
  have c: "map fst (allow_fl_calls round_double (TokenBucket_init 49 1)
              (spaced (- (61 / 2 ^ 65)) (5882252574524729 / 2 ^ 58 + 61 / 2 ^ 65) 2))
     = [True, False]"
    by (simp add: allow_fl_def TokenBucket_init_def Let_def numeral_2_eq_2 spaced_Suc spaced_0 rd)
  show ?thesis
    using a b c by (simp add: rd)
qed

section \<open>The simulation loops\<close>

lemma process_decision:
  "fst (process f cell now) \<in> {(''drop'', Some ''header''), (''drop'', Some ''policer''),
      (''drop'', Some ''payload''), (''forward'', None)}"
  by (auto simp: process_def Let_def split: option.splits prod.splits)

lemma counter_incr: "counter (incr s k) k' = (if k' = k then counter s k + 1 else counter s k')"
  by (simp add: counter_def incr_def getitem_def dict_get_def split: option.splits)

lemma count_cell_balanced:
  assumes "counters_balanced s"
  shows "counters_balanced (fst (count_cell f s cell now))"
proof -
  obtain a r f' where p: "process f cell now = ((a, r), f')"
    by (metis surj_pair)
  have "(a, r) \<in> {(''drop'', Some ''header''), (''drop'', Some ''policer''),
      (''drop'', Some ''payload''), (''forward'', None)}"
    using process_decision [of f cell now] p by simp
  then consider "a = ''drop''" "r = Some ''header''" | "a = ''drop''" "r = Some ''policer''"
    | "a = ''drop''" "r = Some ''payload''" | "a = ''forward''" "r = None"
    by auto
  then show ?thesis
  proof cases
    case 1
    then show ?thesis using assms p
      by (simp add: count_cell_def counters_balanced_def counter_incr Let_def format_reason_def)
  next
    case 2
    then show ?thesis using assms p
      by (simp add: count_cell_def counters_balanced_def counter_incr Let_def format_reason_def)
  next
    case 3
    then show ?thesis using assms p
      by (simp add: count_cell_def counters_balanced_def counter_incr Let_def format_reason_def)
  next
    case 4
    then show ?thesis using assms p
      by (simp add: count_cell_def counters_balanced_def counter_incr Let_def format_reason_def)
  qed
qed


lemma sim_loop_invariant:
  assumes run: "sim_loop E dur dt m b t w f s = Some (s', f', w')"
    and init: "I f s"
    and step: "\<And>w f s t. I f s \<Longrightarrow>
                 I (snd (count_cell f s (fst (next_cell E m w)) (b + t)))
                   (fst (count_cell f s (fst (next_cell E m w)) (b + t)))"
  shows "I f' s'"
proof -
  have "E = E \<longrightarrow> m = m \<longrightarrow> b = b \<longrightarrow> I f s \<longrightarrow> I (fst (snd (s', f', w'))) (fst (s', f', w'))"
  proof (rule sim_loop.raw_induct [where P = "\<lambda>E0 dur dt m0 b0 t w f s y.
            E0 = E \<longrightarrow> m0 = m \<longrightarrow> b0 = b \<longrightarrow> I f s \<longrightarrow> I (fst (snd y)) (fst y)", OF _ run])
    fix loop E0 dur dt m0 b0 t w f s y
    assume ih: "\<And>E0 dur dt m0 b0 t w f s y. loop E0 dur dt m0 b0 t w f s = Some y \<Longrightarrow>
            E0 = E \<longrightarrow> m0 = m \<longrightarrow> b0 = b \<longrightarrow> I f s \<longrightarrow> I (fst (snd y)) (fst y)"
      and body: "(if t < dur
           then let (cell, w') = next_cell E0 m0 w;
                    (s', f') = count_cell f s cell (b0 + t)
                in loop E0 dur dt m0 b0 (t + dt) w' f' s'
           else Some (s, f, w)) = Some y"
    show "E0 = E \<longrightarrow> m0 = m \<longrightarrow> b0 = b \<longrightarrow> I f s \<longrightarrow> I (fst (snd y)) (fst y)"
    proof (cases "t < dur")
      case True
      obtain cell w1 where nc: "next_cell E0 m0 w = (cell, w1)" by (metis surj_pair)
      obtain s1 f1 where cc: "count_cell f s cell (b0 + t) = (s1, f1)" by (metis surj_pair)
      from body True nc cc have "loop E0 dur dt m0 b0 (t + dt) w1 f1 s1 = Some y"
        by simp
      note ih1 = ih [OF this]
      show ?thesis
      proof (intro impI)
        assume e: "E0 = E" "m0 = m" "b0 = b" and i: "I f s"
        from step [OF i, of w t] nc cc e have "I f1 s1" by simp
        with ih1 e show "I (fst (snd y)) (fst y)" by simp
      qed
    next
      case False
      with body show ?thesis by auto
    qed
  qed
  with init show ?thesis by simp
qed

lemma counter_emit_stats: "k \<in> set emit_keys \<Longrightarrow> counter (emit_stats s) k = counter s k"
  by (auto simp: emit_stats_def emit_keys_def counter_def dict_get_def)

lemma emit_stats_balanced: "counters_balanced s \<Longrightarrow> counters_balanced (emit_stats s)"
  by (simp add: counters_balanced_def counter_emit_stats emit_keys_def)

lemma sim_loop_terminates:
  "dur - t \<le> real n * dt \<Longrightarrow> sim_loop E dur dt m b t w f s \<noteq> None"
proof (induction n arbitrary: t w f s)
  case 0
  then have "\<not> t < dur" by simp
  then show ?case by (subst sim_loop.simps) simp
next
  case (Suc n)
  show ?case
  proof (cases "t < dur")
    case True
    obtain cell w1 where nc: "next_cell E m w = (cell, w1)" by (metis surj_pair)
    obtain s1 f1 where cc: "count_cell f s cell (b + t) = (s1, f1)" by (metis surj_pair)
    from Suc.prems have "dur - (t + dt) \<le> real n * dt" by (simp add: algebra_simps)
    from Suc.IH [OF this] have "sim_loop E dur dt m b (t + dt) w1 f1 s1 \<noteq> None" .
    then show ?thesis using True nc cc by (subst sim_loop.simps) simp
  next
    case False
    then show ?thesis by (subst sim_loop.simps) simp
  qed
qed

lemma steps_exist:
  assumes "0 < r"
  shows "\<exists>n. d - 0 \<le> real n * (1 / r)"
proof -
  obtain n :: nat where "d * r \<le> real n" using real_arch_simple by blast
  then have "d \<le> real n / r" using assms by (simp add: pos_le_divide_eq)
  then show ?thesis by auto
qed

lemma emit_loop_invariant:
  assumes run: "emit_loop E dur dt m u b t w f s le bc out = Some (s', out', w')"
    and init: "counters_balanced s" "\<forall>e\<in>set out. event_balanced e"
  shows "counters_balanced s' \<and> (\<forall>e\<in>set out'. event_balanced e)"
proof -
  have "counters_balanced s \<longrightarrow> (\<forall>e\<in>set out. event_balanced e) \<longrightarrow>
          counters_balanced (fst (s', out', w')) \<and> (\<forall>e\<in>set (fst (snd (s', out', w'))). event_balanced e)"
  proof (rule emit_loop.raw_induct [where P = "\<lambda>E dur dt m u b t w f s le bc out y.
            counters_balanced s \<longrightarrow> (\<forall>e\<in>set out. event_balanced e) \<longrightarrow>
            counters_balanced (fst y) \<and> (\<forall>e\<in>set (fst (snd y)). event_balanced e)", OF _ run])
    fix loop E dur dt m u b t w f s le bc out y
    assume ih: "\<And>E dur dt m u b t w f s le bc out y.
            loop E dur dt m u b t w f s le bc out = Some y \<Longrightarrow>
            counters_balanced s \<longrightarrow> (\<forall>e\<in>set out. event_balanced e) \<longrightarrow>
            counters_balanced (fst y) \<and> (\<forall>e\<in>set (fst (snd y)). event_balanced e)"
      and body: "(if t < dur
      then (let (cell, w1) = next_cell E m w;
                (s', f') = count_cell f s cell (b + t);
                (tm, w2) = time_time E w1
            in if tm - le \<ge> u
               then (let out' = out @ [Sim_update (emit_stats s')];
                         (tm', w3) = time_time E w2
                     in loop E dur dt m u b (t + dt) w3 f' s' tm' (Suc bc) out')
               else loop E dur dt m u b (t + dt) w2 f' s' le bc out)
      else Some (s, out, w)) = Some y"
    show "counters_balanced s \<longrightarrow> (\<forall>e\<in>set out. event_balanced e) \<longrightarrow>
            counters_balanced (fst y) \<and> (\<forall>e\<in>set (fst (snd y)). event_balanced e)"
    proof (cases "t < dur")
      case True
      obtain cell w1 where nc: "next_cell E m w = (cell, w1)" by (metis surj_pair)
      obtain s1 f1 where cc: "count_cell f s cell (b + t) = (s1, f1)" by (metis surj_pair)
      obtain tm w2 where t1: "time_time E w1 = (tm, w2)" by (metis surj_pair)
      obtain tm' w3 where t2: "time_time E w2 = (tm', w3)" by (metis surj_pair)
      show ?thesis
      proof (intro impI)
        assume i: "counters_balanced s" and o: "\<forall>e\<in>set out. event_balanced e"
        from count_cell_balanced [OF i, of f cell "b + t"] cc have i1: "counters_balanced s1"
          by simp
        have eb: "counters_balanced (emit_stats s1)" using i1 by (rule emit_stats_balanced)
        show "counters_balanced (fst y) \<and> (\<forall>e\<in>set (fst (snd y)). event_balanced e)"
        proof (cases "tm - le \<ge> u")
          case True
          from body \<open>t < dur\<close> nc cc t1 t2 True
          have "loop E dur dt m u b (t + dt) w3 f1 s1 tm' (Suc bc) (out @ [Sim_update (emit_stats s1)]) = Some y"
            by simp
          from ih [OF this] i1 o eb show ?thesis by simp
        next
          case False
          from body \<open>t < dur\<close> nc cc t1 False
          have "loop E dur dt m u b (t + dt) w2 f1 s1 le bc out = Some y"
            by simp
          from ih [OF this] i1 o show ?thesis by simp
        qed
      qed
    next
      case False
      with body show ?thesis by auto
    qed
  qed
  with init show ?thesis by simp
qed

lemma emit_loop_terminates:
  "dur - t \<le> real n * dt \<Longrightarrow> emit_loop E dur dt m u b t w f s le bc out \<noteq> None"
proof (induction n arbitrary: t w f s le bc out)
  case 0
  then have "\<not> t < dur" by simp
  then show ?case by (subst emit_loop.simps) simp
next
  case (Suc n)
  show ?case
  proof (cases "t < dur")
    case True
    obtain cell w1 where nc: "next_cell E m w = (cell, w1)" by (metis surj_pair)
    obtain s1 f1 where cc: "count_cell f s cell (b + t) = (s1, f1)" by (metis surj_pair)
    obtain tm w2 where t1: "time_time E w1 = (tm, w2)" by (metis surj_pair)
    obtain tm' w3 where t2: "time_time E w2 = (tm', w3)" by (metis surj_pair)
    from Suc.prems have le: "dur - (t + dt) \<le> real n * dt" by (simp add: algebra_simps)
    show ?thesis
    proof (cases "tm - le \<ge> u")
      case True
      from Suc.IH [OF le] have
        "emit_loop E dur dt m u b (t + dt) w3 f1 s1 tm' (Suc bc) (out @ [Sim_update (emit_stats s1)]) \<noteq> None" .
      then show ?thesis using \<open>t < dur\<close> nc cc t1 t2 True by (subst emit_loop.simps) simp
    next
      case False
      from Suc.IH [OF le] have
        "emit_loop E dur dt m u b (t + dt) w2 f1 s1 le bc out \<noteq> None" .
      then show ?thesis using \<open>t < dur\<close> nc cc t1 False by (subst emit_loop.simps) simp
    qed
  next
    case False
    then show ?thesis by (subst emit_loop.simps) simp
  qed
qed

lemma counter_getitem: "counter (snd (getitem s k)) k' = counter s k'"
  by (simp add: counter_def getitem_def dict_get_def split: option.splits)

lemma fst_getitem: "fst (getitem s k) = counter s k"
  by (simp add: counter_def getitem_def dict_get_def split: option.splits)

lemma truthy_get_counter: "truthy_get s k = (counter s k \<noteq> 0)"
  by (simp add: truthy_get_def counter_def dict_get_def split: option.splits)

lemma derived_rate_value:
  "\<exists>s'. derived_rate s num den =
          Inr (if counter s den \<noteq> 0
               then real_of_int (counter s num) / real_of_int (counter s den) else 0, s')
        \<and> (\<forall>k. counter s' k = counter s k)"
proof (cases "counter s den = 0")
  case True
  then show ?thesis by (simp add: derived_rate_def truthy_get_counter)
next
  case False
  obtain a s1 where g1: "getitem s num = (a, s1)" by (metis surj_pair)
  obtain b s2 where g2: "getitem s1 den = (b, s2)" by (metis surj_pair)
  have a: "a = counter s num" using fst_getitem [of s num] g1 by simp
  have c1: "\<And>k. counter s1 k = counter s k" using counter_getitem [of s num] g1 by simp
  have b: "b = counter s den" using fst_getitem [of s1 den] g2 c1 by simp
  have c2: "\<And>k. counter s2 k = counter s k" using counter_getitem [of s1 den] g2 c1 by simp
  show ?thesis using False g1 g2 a b c2
    by (simp add: derived_rate_def truthy_get_counter truediv_def)
qed

lemma finalize_value:
  "\<exists>res. finalize s = Inr res
     \<and> (\<forall>k. counter (counters res) k = counter s k)
     \<and> false_positive_rate res =
         (if counter s ''legit_total'' \<noteq> 0
          then real_of_int (counter s ''legit_dropped'') / real_of_int (counter s ''legit_total'')
          else 0)
     \<and> false_negative_rate res =
         (if counter s ''mal_total'' \<noteq> 0
          then real_of_int (counter s ''mal_forwarded'') / real_of_int (counter s ''mal_total'')
          else 0)"
proof -
  from derived_rate_value [of s "''legit_dropped''" "''legit_total''"]
  obtain s1 where d1: "derived_rate s ''legit_dropped'' ''legit_total'' =
          Inr (if counter s ''legit_total'' \<noteq> 0
               then real_of_int (counter s ''legit_dropped'') / real_of_int (counter s ''legit_total'')
               else 0, s1)"
    and c1: "\<And>k. counter s1 k = counter s k" by blast
  from derived_rate_value [of s1 "''mal_forwarded''" "''mal_total''"]
  obtain s2 where d2: "derived_rate s1 ''mal_forwarded'' ''mal_total'' =
          Inr (if counter s1 ''mal_total'' \<noteq> 0
               then real_of_int (counter s1 ''mal_forwarded'') / real_of_int (counter s1 ''mal_total'')
               else 0, s2)"
    and c2: "\<And>k. counter s2 k = counter s1 k" by blast
  show ?thesis
    unfolding finalize_def d1 using d2 c1 c2 by simp
qed

lemma finalize_emit_value:
  "\<exists>res. finalize_emit s = Inr res
     \<and> counters res = s
     \<and> false_positive_rate res =
         (if counter s ''legit_total'' \<noteq> 0
          then real_of_int (counter s ''legit_dropped'') / real_of_int (counter s ''legit_total'')
          else 0)
     \<and> false_negative_rate res =
         (if counter s ''mal_total'' \<noteq> 0
          then real_of_int (counter s ''mal_forwarded'') / real_of_int (counter s ''mal_total'')
          else 0)"
proof -
  have d: "derived_rate_emit s num den =
          Inr (if counter s den \<noteq> 0
               then real_of_int (counter s num) / real_of_int (counter s den) else 0)" for num den
    by (simp add: derived_rate_emit_def truthy_get_def truediv_def counter_def dict_get_def
        split: option.splits)
  show ?thesis by (simp add: finalize_emit_def d)
qed

lemma rates_as_specifiedI:
  assumes "\<forall>k. counter (counters res) k = counter s k"
    and "false_positive_rate res =
         (if counter s ''legit_total'' \<noteq> 0
          then real_of_int (counter s ''legit_dropped'') / real_of_int (counter s ''legit_total'')
          else 0)"
    and "false_negative_rate res =
         (if counter s ''mal_total'' \<noteq> 0
          then real_of_int (counter s ''mal_forwarded'') / real_of_int (counter s ''mal_total'')
          else 0)"
  shows "rates_as_specified res"
  using assms by (simp add: rates_as_specified_def)

lemma finalize_rates: "\<exists>res. finalize s = Inr res \<and> rates_as_specified res
     \<and> (\<forall>k. counter (counters res) k = counter s k)"
  using finalize_value [of s] rates_as_specifiedI by blast

lemma finalize_emit_rates: "\<exists>res. finalize_emit s = Inr res \<and> rates_as_specified res
     \<and> counters res = s"
proof -
  from finalize_emit_value [of s] obtain res where r: "finalize_emit s = Inr res"
     "counters res = s"
     "false_positive_rate res =
         (if counter s ''legit_total'' \<noteq> 0
          then real_of_int (counter s ''legit_dropped'') / real_of_int (counter s ''legit_total'')
          else 0)"
     "false_negative_rate res =
         (if counter s ''mal_total'' \<noteq> 0
          then real_of_int (counter s ''mal_forwarded'') / real_of_int (counter s ''mal_total'')
          else 0)" by blast
  have "rates_as_specified res"
    by (rule rates_as_specifiedI [of res s]) (use r in simp_all)
  with r show ?thesis by blast
qed

text \<open>The two runs, once the rate is known not to be zero.\<close>

lemma run_simulation_cases:
  assumes "r \<noteq> 0"
  shows "run_simulation E d r m hdl sg pc seed w =
     (case sim_loop E d (1 / r) m (wall_clock E (clock_reads w)) 0
            ((case seed of None \<Rightarrow> w\<lparr>clock_reads := Suc (clock_reads w)\<rparr>
              | Some sd \<Rightarrow> w\<lparr>clock_reads := Suc (clock_reads w), rng := rnd_seed E sd\<rparr>))
            (ATMFilter_init (Some (HeaderRule_init hdl)) (Some (PayloadRule_init sg)) pc)
            Map.empty of
        None \<Rightarrow> None
      | Some (s, f, w3) \<Rightarrow> Some (finalize s))"
  using assms
  by (cases seed) (simp_all add: run_simulation_def generate_traffic_start_def time_time_def Let_def)

lemma run_simulation_emit_cases:
  assumes "r \<noteq> 0"
  shows "run_simulation_emit E d r m hdl sg pc u seed w =
     (case emit_loop E d (1 / r) m u (wall_clock E (clock_reads w)) 0
            ((case seed of None \<Rightarrow> w\<lparr>clock_reads := Suc (clock_reads w)\<rparr>
              | Some sd \<Rightarrow> w\<lparr>clock_reads := Suc (clock_reads w), rng := rnd_seed E sd\<rparr>))
            (ATMFilter_init (Some (HeaderRule_init hdl)) (Some (PayloadRule_init sg)) pc)
            Map.empty (wall_clock E (clock_reads w)) 0 [] of
        None \<Rightarrow> None
      | Some (s, out, w3) \<Rightarrow>
          (case finalize_emit s of
             Inl e \<Rightarrow> Some (Inl e)
           | Inr final \<Rightarrow> Some (Inr (out @ [Sim_done final]))))"
  using assms
  by (cases seed)
    (simp_all add: run_simulation_emit_def generate_traffic_start_def time_time_def Let_def)

lemma run_simulation_returns:
  assumes "0 < r"
  shows "\<exists>res. run_simulation E d r m hdl sg pc seed w = Some (Inr res)"
proof -
  from steps_exist [OF assms, of d] obtain n where n: "d - 0 \<le> real n * (1 / r)" by blast
  let ?w = "(case seed of None \<Rightarrow> w\<lparr>clock_reads := Suc (clock_reads w)\<rparr>
              | Some sd \<Rightarrow> w\<lparr>clock_reads := Suc (clock_reads w), rng := rnd_seed E sd\<rparr>)"
  let ?f = "ATMFilter_init (Some (HeaderRule_init hdl)) (Some (PayloadRule_init sg)) pc"
  from sim_loop_terminates [OF n, of E m "wall_clock E (clock_reads w)" ?w ?f Map.empty]
  obtain s f' w' where l: "sim_loop E d (1 / r) m (wall_clock E (clock_reads w)) 0 ?w ?f Map.empty
      = Some (s, f', w')"
    by (metis not_None_eq prod_cases3)
  from finalize_rates [of s] obtain res where "finalize s = Inr res" by blast
  with l assms show ?thesis by (simp add: run_simulation_cases)
qed

lemma run_simulation_emit_returns:
  assumes "0 < r"
  shows "\<exists>evs. run_simulation_emit E d r m hdl sg pc u seed w = Some (Inr evs)"
proof -
  from steps_exist [OF assms, of d] obtain n where n: "d - 0 \<le> real n * (1 / r)" by blast
  let ?w = "(case seed of None \<Rightarrow> w\<lparr>clock_reads := Suc (clock_reads w)\<rparr>
              | Some sd \<Rightarrow> w\<lparr>clock_reads := Suc (clock_reads w), rng := rnd_seed E sd\<rparr>)"
  let ?f = "ATMFilter_init (Some (HeaderRule_init hdl)) (Some (PayloadRule_init sg)) pc"
  from emit_loop_terminates [OF n, of E m u "wall_clock E (clock_reads w)" ?w ?f Map.empty
      "wall_clock E (clock_reads w)" 0 "[]"]
  obtain s out w' where l: "emit_loop E d (1 / r) m u (wall_clock E (clock_reads w)) 0 ?w ?f
      Map.empty (wall_clock E (clock_reads w)) 0 [] = Some (s, out, w')"
    by (metis not_None_eq prod_cases3)
  from finalize_emit_rates [of s] obtain res where "finalize_emit s = Inr res" by blast
  with l assms show ?thesis by (simp add: run_simulation_emit_cases)
qed

section \<open>Counters and rates of a run\<close>

lemma counters_balanced_empty: "counters_balanced Map.empty"
  by (simp add: counters_balanced_def counter_def dict_get_def)

lemma counters_balanced_cong:
  "\<forall>k. counter s' k = counter s k \<Longrightarrow> counters_balanced s \<Longrightarrow> counters_balanced s'"
  by (simp add: counters_balanced_def)

lemma run_simulation_balanced:
  assumes "run_simulation E d r m hdl sg pc seed w = Some (Inr res)"
  shows "counters_balanced (counters res)"
proof (cases "r = 0")
  case True
  with assms show ?thesis
    by (simp add: run_simulation_def generate_traffic_start_def time_time_def Let_def)
next
  case False
  let ?w = "(case seed of None \<Rightarrow> w\<lparr>clock_reads := Suc (clock_reads w)\<rparr>
              | Some sd \<Rightarrow> w\<lparr>clock_reads := Suc (clock_reads w), rng := rnd_seed E sd\<rparr>)"
  let ?f = "ATMFilter_init (Some (HeaderRule_init hdl)) (Some (PayloadRule_init sg)) pc"
  from assms False obtain s f' w' where
    l: "sim_loop E d (1 / r) m (wall_clock E (clock_reads w)) 0 ?w ?f Map.empty = Some (s, f', w')"
    and fin: "finalize s = Inr res"
    by (auto simp: run_simulation_cases split: option.splits)
  have "counters_balanced s"
    by (rule sim_loop_invariant [where I = "\<lambda>f s. counters_balanced s", OF l])
       (simp_all add: counters_balanced_empty count_cell_balanced)
  moreover from finalize_rates [of s] fin have "\<forall>k. counter (counters res) k = counter s k"
    by auto
  ultimately show ?thesis by (rule counters_balanced_cong [rotated])
qed

lemma run_simulation_emit_balanced:
  assumes "run_simulation_emit E d r m hdl sg pc u seed w = Some (Inr evs)"
  shows "\<forall>e\<in>set evs. event_balanced e"
proof (cases "r = 0")
  case True
  with assms show ?thesis
    by (simp add: run_simulation_emit_def generate_traffic_start_def time_time_def Let_def)
next
  case False
  let ?w = "(case seed of None \<Rightarrow> w\<lparr>clock_reads := Suc (clock_reads w)\<rparr>
              | Some sd \<Rightarrow> w\<lparr>clock_reads := Suc (clock_reads w), rng := rnd_seed E sd\<rparr>)"
  let ?f = "ATMFilter_init (Some (HeaderRule_init hdl)) (Some (PayloadRule_init sg)) pc"
  from assms False obtain s out w' res where
    l: "emit_loop E d (1 / r) m u (wall_clock E (clock_reads w)) 0 ?w ?f Map.empty
          (wall_clock E (clock_reads w)) 0 [] = Some (s, out, w')"
    and fin: "finalize_emit s = Inr res" and evs: "evs = out @ [Sim_done res]"
    by (auto simp: run_simulation_emit_cases split: option.splits sum.splits)
  from emit_loop_invariant [OF l] have "counters_balanced s" "\<forall>e\<in>set out. event_balanced e"
    by (simp_all add: counters_balanced_empty)
  moreover from finalize_emit_rates [of s] fin have "counters res = s" by auto
  ultimately show ?thesis using evs by simp
qed

text \<open>
  C10. The four balance equations hold for the empty counters, and every pass through
  the loop body (\<open>count_cell\<close>) keeps them. So they hold in the result of every
  \<open>run_simulation\<close>, and in every event that \<open>run_simulation_emit\<close> sends: each
  periodic snapshot and the final result. With a positive rate both runs do return.
\<close>

theorem counters_stay_balanced:
  "counters_balanced Map.empty
   \<and> (counters_balanced s \<longrightarrow> counters_balanced (fst (count_cell f s cell now)))
   \<and> (run_simulation E d r m hdl sg pc seed w = Some (Inr res) \<longrightarrow>
        counters_balanced (counters res))
   \<and> (run_simulation_emit E d r m hdl sg pc u seed w = Some (Inr evs) \<longrightarrow>
        (\<forall>e\<in>set evs. event_balanced e))
   \<and> (0 < r \<longrightarrow> (\<exists>res'. run_simulation E d r m hdl sg pc seed w = Some (Inr res'))
               \<and> (\<exists>evs'. run_simulation_emit E d r m hdl sg pc u seed w = Some (Inr evs')))"
proof (intro conjI impI)
  show "counters_balanced Map.empty" by (rule counters_balanced_empty)
  show "counters_balanced (fst (count_cell f s cell now))" if "counters_balanced s"
    using that by (rule count_cell_balanced)
  show "counters_balanced (counters res)"
    if "run_simulation E d r m hdl sg pc seed w = Some (Inr res)"
    using that by (rule run_simulation_balanced)
  show "\<forall>e\<in>set evs. event_balanced e"
    if "run_simulation_emit E d r m hdl sg pc u seed w = Some (Inr evs)"
    using that by (rule run_simulation_emit_balanced)
  show "\<exists>res'. run_simulation E d r m hdl sg pc seed w = Some (Inr res')" if "0 < r"
    using that by (rule run_simulation_returns)
  show "\<exists>evs'. run_simulation_emit E d r m hdl sg pc u seed w = Some (Inr evs')" if "0 < r"
    using that by (rule run_simulation_emit_returns)
qed

theorem counters_stay_balanced_witness:
  "counters_balanced Map.empty
   \<and> counters_balanced (fst (count_cell (ATMFilter_init None None None) Map.empty
          \<lparr>vpi = 1, vci = 30, payload = ''BADSIG_4'', is_malicious = True, timestamp = 0\<rparr> 0))
   \<and> (0::real) < 200
   \<and> (\<exists>res. run_simulation demo_env (1/100) 200 (1/2) (Some [(1, 30)]) (Some [''BADSIG_''])
               (Some [((0, 10), (50, 20))]) (Some 1) demo_world = Some (Inr res)
             \<and> counters_balanced (counters res))
   \<and> (\<exists>evs. run_simulation_emit demo_env (1/100) 200 (1/2) (Some [(1, 30)]) (Some [''BADSIG_''])
               (Some [((0, 10), (50, 20))]) (1/1000) (Some 1) demo_world = Some (Inr evs)
             \<and> (\<forall>e\<in>set evs. event_balanced e))"
proof -
  note t = counters_stay_balanced [where s = Map.empty and f = "ATMFilter_init None None None"
      and cell = "\<lparr>vpi = 1, vci = 30, payload = ''BADSIG_4'', is_malicious = True, timestamp = 0\<rparr>"
      and now = 0 and E = demo_env and d = "1/100" and r = 200 and m = "1/2"
      and hdl = "Some [(1, 30)]" and sg = "Some [''BADSIG_'']"
      and pc = "Some [((0, 10), (50, 20))]" and seed = "Some 1" and w = demo_world
      and u = "1/1000"]
  have pos: "(0::real) < 200" by simp
  from t pos obtain res evs where
    r: "run_simulation demo_env (1/100) 200 (1/2) (Some [(1, 30)]) (Some [''BADSIG_''])
               (Some [((0, 10), (50, 20))]) (Some 1) demo_world = Some (Inr res)"
    and e: "run_simulation_emit demo_env (1/100) 200 (1/2) (Some [(1, 30)]) (Some [''BADSIG_''])
               (Some [((0, 10), (50, 20))]) (1/1000) (Some 1) demo_world = Some (Inr evs)"
    by blast
  from t [where res = res and evs = evs] r e pos show ?thesis by blast
qed





section \<open>A run of malicious cells only\<close>

lemma next_cell_all_malicious:
  assumes "random_in_unit E"
  shows "is_malicious (fst (next_cell E 1 w))
       \<and> (\<exists>n. payload (fst (next_cell E 1 w)) = ''BADSIG_'' @ str_int n)"
proof -
  obtain vp g1 where a: "rnd_choice E [0, 1, 2] (rng w) = (vp, g1)" by (metis surj_pair)
  obtain vc g2 where b: "rnd_choice E [10, 20, 30, 40] g1 = (vc, g2)" by (metis surj_pair)
  obtain u g3 where c: "rnd_random E g2 = (u, g3)" by (metis surj_pair)
  obtain n g4 where d: "rnd_randint E 0 999 g3 = (n, g4)" by (metis surj_pair)
  from assms have "fst (rnd_random E g2) < 1" by (simp add: random_in_unit_def)
  with c have "u < 1" by simp
  then show ?thesis using a b c d
    by (auto simp: next_cell_def ATMCell_init_def time_time_def Let_def)
qed

lemma check_signatures_iff:
  "check_signatures sigs cell \<longleftrightarrow> (\<exists>sig\<in>set sigs. sublist sig (payload cell))"
  by (induction sigs) auto

lemma sublist_BADSIG: "sublist ''BADSIG_'' (''BADSIG_'' @ x)"
  by (rule prefix_imp_sublist) simp

lemma process_signature_hit:
  assumes "sig \<in> set (signatures (payload_rule f))" "sublist sig (payload cell)"
  shows "fst (process f cell now) = (''drop'', Some ''header'')
       \<or> fst (process f cell now) = (''drop'', Some ''policer'')
       \<or> fst (process f cell now) = (''drop'', Some ''payload'')"
proof -
  have "PayloadRule_check (payload_rule f) cell"
    using assms by (auto simp: PayloadRule_check_def check_signatures_iff)
  then show ?thesis
    by (auto simp: process_def Let_def split: option.splits prod.splits)
qed

lemma process_keeps_rules:
  "payload_rule (snd (process f cell now)) = payload_rule f
   \<and> header_rule (snd (process f cell now)) = header_rule f"
  by (auto simp: process_def Let_def split: option.splits prod.splits)

lemma count_cell_dropped_malicious:
  assumes "is_malicious cell"
    and "fst (process f cell now) = (''drop'', Some ''header'')
       \<or> fst (process f cell now) = (''drop'', Some ''policer'')
       \<or> fst (process f cell now) = (''drop'', Some ''payload'')"
  shows "counter (fst (count_cell f s cell now)) ''mal_forwarded'' = counter s ''mal_forwarded''
       \<and> snd (count_cell f s cell now) = snd (process f cell now)"
proof -
  obtain a r f' where p: "process f cell now = ((a, r), f')" by (metis surj_pair)
  with assms(2) consider "a = ''drop''" "r = Some ''header''" | "a = ''drop''" "r = Some ''policer''"
    | "a = ''drop''" "r = Some ''payload''" by auto
  then show ?thesis
  proof cases
    case 1
    then show ?thesis using assms(1) p
      by (simp add: count_cell_def counter_incr Let_def format_reason_def)
  next
    case 2
    then show ?thesis using assms(1) p
      by (simp add: count_cell_def counter_incr Let_def format_reason_def)
  next
    case 3
    then show ?thesis using assms(1) p
      by (simp add: count_cell_def counter_incr Let_def format_reason_def)
  qed
qed

lemma all_malicious_step:
  assumes E: "random_in_unit E" and sg: "''BADSIG_'' \<in> set sigs"
    and I: "signatures (payload_rule f) = sigs \<and> counter s ''mal_forwarded'' = 0"
  shows "signatures (payload_rule (snd (count_cell f s (fst (next_cell E 1 w)) now))) = sigs
       \<and> counter (fst (count_cell f s (fst (next_cell E 1 w)) now)) ''mal_forwarded'' = 0"
proof -
  let ?c = "fst (next_cell E 1 w)"
  from next_cell_all_malicious [OF E, of w] obtain n where
    m: "is_malicious ?c" and pl: "payload ?c = ''BADSIG_'' @ str_int n" by blast
  have sub: "sublist ''BADSIG_'' (payload ?c)" by (simp only: pl sublist_BADSIG)
  have hit: "fst (process f ?c now) = (''drop'', Some ''header'')
       \<or> fst (process f ?c now) = (''drop'', Some ''policer'')
       \<or> fst (process f ?c now) = (''drop'', Some ''payload'')"
    by (rule process_signature_hit [of "''BADSIG_''"]) (use sg I sub in simp_all)
  from count_cell_dropped_malicious [OF m hit, of s] process_keeps_rules [of f ?c now] I
  show ?thesis by simp
qed

lemma all_malicious_run:
  assumes E: "random_in_unit E" and sg: "''BADSIG_'' \<in> set sigs"
    and run: "run_simulation E d r 1 hdl (Some sigs) pc seed w = Some (Inr res)"
  shows "counter (counters res) ''mal_forwarded'' = 0 \<and> false_negative_rate res = 0"
proof (cases "r = 0")
  case True
  with run show ?thesis
    by (simp add: run_simulation_def generate_traffic_start_def time_time_def Let_def)
next
  case False
  let ?w = "(case seed of None \<Rightarrow> w\<lparr>clock_reads := Suc (clock_reads w)\<rparr>
              | Some sd \<Rightarrow> w\<lparr>clock_reads := Suc (clock_reads w), rng := rnd_seed E sd\<rparr>)"
  let ?f = "ATMFilter_init (Some (HeaderRule_init hdl)) (Some (PayloadRule_init (Some sigs))) pc"
  from run False obtain s f' w' where
    l: "sim_loop E d (1 / r) 1 (wall_clock E (clock_reads w)) 0 ?w ?f Map.empty = Some (s, f', w')"
    and fin: "finalize s = Inr res"
    by (auto simp: run_simulation_cases split: option.splits)
  from sg have ne: "sigs \<noteq> []" by auto
  have "signatures (payload_rule f') = sigs \<and> counter s ''mal_forwarded'' = 0"
  proof (rule sim_loop_invariant [where
        I = "\<lambda>f s. signatures (payload_rule f) = sigs \<and> counter s ''mal_forwarded'' = 0", OF l])
    show "signatures (payload_rule ?f) = sigs \<and> counter Map.empty ''mal_forwarded'' = 0"
      using ne by (simp add: ATMFilter_init_def PayloadRule_init_def counter_def dict_get_def)
  next
    fix w1 :: "'a world" and f1 :: ATMFilter and s1 :: stats and t1 :: real
    assume inv: "signatures (payload_rule f1) = sigs \<and> counter s1 ''mal_forwarded'' = 0"
    show "signatures (payload_rule (snd (count_cell f1 s1 (fst (next_cell E 1 w1))
              (wall_clock E (clock_reads w) + t1)))) = sigs
       \<and> counter (fst (count_cell f1 s1 (fst (next_cell E 1 w1))
              (wall_clock E (clock_reads w) + t1))) ''mal_forwarded'' = 0"
      by (rule all_malicious_step [OF E sg inv])
  qed
  then have z: "counter s ''mal_forwarded'' = 0" by simp
  from finalize_value [of s] fin z show ?thesis by auto
qed

text \<open>
  C6. With \<open>malicious_fraction = 1\<close>, a generator whose \<open>random()\<close> lies in \<open>[0, 1)\<close> and
  a signature list that contains \<open>BADSIG_\<close>: every generated cell is malicious and its
  payload contains \<open>BADSIG_\<close>; the filter drops it, and when neither the header rule
  nor the policer is the reason, the reason is \<open>payload\<close>; every result that
  \<open>run_simulation\<close> returns has \<open>mal_forwarded = 0\<close> and a false negative rate of 0;
  and with a positive rate the run returns.
\<close>

theorem all_malicious_none_forwarded:
  assumes "random_in_unit E" and "''BADSIG_'' \<in> set sigs"
  shows "is_malicious (fst (next_cell E 1 w0))
       \<and> sublist ''BADSIG_'' (payload (fst (next_cell E 1 w0)))
       \<and> (signatures (payload_rule f) = sigs \<longrightarrow>
            fst (process f (fst (next_cell E 1 w0)) now) = (''drop'', Some ''header'')
          \<or> fst (process f (fst (next_cell E 1 w0)) now) = (''drop'', Some ''policer'')
          \<or> fst (process f (fst (next_cell E 1 w0)) now) = (''drop'', Some ''payload''))
       \<and> (run_simulation E d r 1 hdl (Some sigs) pc seed w = Some (Inr res) \<longrightarrow>
            counter (counters res) ''mal_forwarded'' = 0 \<and> false_negative_rate res = 0)
       \<and> (0 < r \<longrightarrow> (\<exists>res'. run_simulation E d r 1 hdl (Some sigs) pc seed w = Some (Inr res')))"
proof (intro conjI impI)
  from next_cell_all_malicious [OF assms(1), of w0] obtain n where
    m: "is_malicious (fst (next_cell E 1 w0))"
    and pl: "payload (fst (next_cell E 1 w0)) = ''BADSIG_'' @ str_int n" by blast
  show "is_malicious (fst (next_cell E 1 w0))" by (rule m)
  show sub: "sublist ''BADSIG_'' (payload (fst (next_cell E 1 w0)))"
    by (simp only: pl sublist_BADSIG)
  show "fst (process f (fst (next_cell E 1 w0)) now) = (''drop'', Some ''header'')
          \<or> fst (process f (fst (next_cell E 1 w0)) now) = (''drop'', Some ''policer'')
          \<or> fst (process f (fst (next_cell E 1 w0)) now) = (''drop'', Some ''payload'')"
    if "signatures (payload_rule f) = sigs"
    by (rule process_signature_hit [of "''BADSIG_''"]) (use that assms(2) sub in simp_all)
  show "counter (counters res) ''mal_forwarded'' = 0"
    if "run_simulation E d r 1 hdl (Some sigs) pc seed w = Some (Inr res)"
    using all_malicious_run [OF assms that] by simp
  show "false_negative_rate res = 0"
    if "run_simulation E d r 1 hdl (Some sigs) pc seed w = Some (Inr res)"
    using all_malicious_run [OF assms that] by simp
  show "\<exists>res'. run_simulation E d r 1 hdl (Some sigs) pc seed w = Some (Inr res')" if "0 < r"
    using that by (rule run_simulation_returns)
qed

theorem all_malicious_none_forwarded_witness:
  "random_in_unit demo_env \<and> ''BADSIG_'' \<in> set [''BADSIG_''] \<and> (0::real) < 200
   \<and> is_malicious (fst (next_cell demo_env 1 demo_world))
   \<and> sublist ''BADSIG_'' (payload (fst (next_cell demo_env 1 demo_world)))
   \<and> (\<exists>res. run_simulation demo_env (1/100) 200 1 (Some [(1, 30)]) (Some [''BADSIG_''])
               (Some [((0, 10), (50, 20))]) (Some 1) demo_world = Some (Inr res)
             \<and> counter (counters res) ''mal_forwarded'' = 0 \<and> false_negative_rate res = 0)"
proof -
  have h1: "random_in_unit demo_env"
    by (simp add: random_in_unit_def demo_env_def)
  have h2: "''BADSIG_'' \<in> set [''BADSIG_'']" by simp
  note t = all_malicious_none_forwarded [OF h1 h2, where ?w0.0 = demo_world
      and f = "ATMFilter_init None None None" and now = 0 and d = "1/100"
      and r = 200 and hdl = "Some [(1, 30)]"
      and pc = "Some [((0, 10), (50, 20))]" and seed = "Some 1" and w = demo_world]
  have pos: "(0::real) < 200" by simp
  from t pos obtain res where
    r: "run_simulation demo_env (1/100) 200 1 (Some [(1, 30)]) (Some [''BADSIG_''])
               (Some [((0, 10), (50, 20))]) (Some 1) demo_world = Some (Inr res)"
    by blast
  from t [where res = res] r h1 h2 pos show ?thesis by blast
qed

section \<open>Two runs at different wall-clock times\<close>

lemma rd_dt: "round_double (1 / 200) = 5764607523034235 / 1152921504606846976"
  by (subst round_double_in_binade [where e = "-8"])
     (simp_all add: round_half_even_def Let_def powr_minus)

lemma rd_t_dt: "round_double (5764607523034235 / 1152921504606846976) = 5764607523034235 / 1152921504606846976"
  by (subst round_double_in_binade [where e = "-8"])
     (simp_all add: round_half_even_def Let_def powr_minus)

lemma rd_t_2dt: "round_double (5764607523034235 / 576460752303423488) = 5764607523034235 / 576460752303423488"
  by (subst round_double_in_binade [where e = "-7"])
     (simp_all add: round_half_even_def Let_def powr_minus)

lemma rd_base_a: "round_double 1000000000 = 1000000000"
  by (subst round_double_in_binade [where e = 29])
     (simp_all add: round_half_even_def Let_def powr_minus)

lemma rd_now_a: "round_double (1152921504612611583523034235 / 1152921504606846976) = 8388608000041943 / 8388608"
  by (subst round_double_in_binade [where e = 29])
     (simp_all add: round_half_even_def Let_def powr_minus)

lemma rd_el_a: "round_double (41943 / 8388608) = 41943 / 8388608"
  by (subst round_double_in_binade [where e = "-8"])
     (simp_all add: round_half_even_def Let_def powr_minus)

lemma rd_refill_a: "round_double (1048575 / 1048576) = 1048575 / 1048576"
  by (subst round_double_in_binade [where e = "-1"])
     (simp_all add: round_half_even_def Let_def powr_minus)

lemma rd_base_b: "round_double 1700000000 = 1700000000"
  by (subst round_double_in_binade [where e = 30])
     (simp_all add: round_half_even_def Let_def powr_minus)

lemma rd_now_b: "round_double (1959966557837404466723034235 / 1152921504606846976) = 1782579200005243 / 1048576"
  by (subst round_double_in_binade [where e = 30])
     (simp_all add: round_half_even_def Let_def powr_minus)

lemma rd_el_b: "round_double (5243 / 1048576) = 5243 / 1048576"
  by (subst round_double_in_binade [where e = "-8"])
     (simp_all add: round_half_even_def Let_def powr_minus)

lemma rd_refill_b: "round_double (131075 / 131072) = 131075 / 131072"
  by (subst round_double_in_binade [where e = 0])
     (simp_all add: round_half_even_def Let_def powr_minus)


lemmas rd_c4 = rd_dt rd_t_dt rd_t_2dt rd_base_a rd_now_a rd_el_a rd_refill_a
  rd_base_b rd_now_b rd_el_b rd_refill_b

text \<open>
  C4 says that two runs with the same arguments and the same seed end with the same
  counters, whatever the wall clock shows. In double arithmetic they do not. The run
  \<open>run_simulation(duration=0.0078125, rate=200.0, mal_frac=0.0, policer_cfg={(2,10): (200.0, 1.0)}, seed=10)\<close>
  generates two cells, both on flow \<open>(2, 10)\<close>, at offsets 0 and \<open>0.005\<close>. Started when
  \<open>time.time()\<close> is \<open>1000000000.0\<close>, the policer refuses the second cell (the computed
  \<open>elapsed * rate\<close> is \<open>1048575 / 1048576\<close>) and the run forwards one cell; started at
  \<open>1700000000.0\<close>, the computed refill is above 1 and the run forwards both.
\<close>

theorem wall_clock_base_changes_counters:
  "counters_of (run_simulation_fl round_double (py_random_seed_10 1000000000) (1 / 128) 200 0
       None None (Some [((2, 10), (200, 1))]) (Some 10) w)
     = Some [(''total'', 2), (''forwarded'', 1), (''dropped'', 1), (''dropped_policer'', 1)]
   \<and> counters_of (run_simulation_fl round_double (py_random_seed_10 1700000000) (1 / 128) 200 0
       None None (Some [((2, 10), (200, 1))]) (Some 10) w')
     = Some [(''total'', 2), (''forwarded'', 2), (''dropped'', 0), (''dropped_policer'', 0)]"
  by (simp add: counters_of_def run_simulation_fl_def generate_traffic_start_fl_def
      time_time_def py_random_seed_10_def sim_loop_fl.simps next_cell_def ATMCell_init_def
      count_cell_fl_def process_fl_def allow_fl_def HeaderRule_check_def HeaderRule_init_def
      PayloadRule_check_def PayloadRule_init_def ATMFilter_init_def TokenBucket_init_def
      header_def incr_def getitem_def format_reason_def finalize_fl_def derived_rate_fl_def
      truediv_fl_def truthy_get_def counter_def dict_get_def Let_def rd_c4)

end
